theory Spec2Isabelle
  imports Main "HOL-Library.Word" "HOL-Library.AList"
begin

unbundle bit_operations_syntax

section \<open>Paths (pkg/overlay/whiteout.go: splitPath, joinPath)\<close>

text \<open>
  \<open>splitPath\<close> calls \<open>filepath.Clean("/" + path)\<close> of the Go standard library and
  then splits the result at the separator. For a rooted argument the library documents
  \<open>Clean\<close> as: collapse repeated separators, drop every \<open>.\<close> element, let every
  \<open>..\<close> element remove the element before it, and drop a \<open>..\<close> that would climb
  above the root. \<open>cleanStack\<close> runs these rules over the elements from left to right.
\<close>

fun splitSep :: "string \<Rightarrow> string list" where
  "splitSep [] = [[]]"
| "splitSep (c # cs) =
     (if c = CHR ''/'' then [] # splitSep cs
      else (case splitSep cs of [] \<Rightarrow> [[c]] | w # ws \<Rightarrow> (c # w) # ws))"

fun cleanStack :: "string list \<Rightarrow> string list \<Rightarrow> string list" where
  "cleanStack st [] = st"
| "cleanStack st (c # cs) =
     (if c = [] \<or> c = ''.'' then cleanStack st cs
      else if c = ''..'' then cleanStack (butlast st) cs
      else cleanStack (st @ [c]) cs)"

fun Join :: "string list \<Rightarrow> string" where
  "Join [] = []"
| "Join [x] = x"
| "Join (x # y # ys) = x @ CHR ''/'' # Join (y # ys)"

definition joinPath :: "string list \<Rightarrow> string" where
  "joinPath parts = (if parts = [] then ''/'' else CHR ''/'' # Join parts)"

definition Clean :: "string \<Rightarrow> string" where
  "Clean p = joinPath (cleanStack [] (splitSep p))"

definition TrimPrefixSlash :: "string \<Rightarrow> string" where
  "TrimPrefixSlash p = (case p of [] \<Rightarrow> [] | c # cs \<Rightarrow> if c = CHR ''/'' then cs else p)"

definition splitPath :: "string \<Rightarrow> string list" where
  "splitPath path =
     (let p = Clean (CHR ''/'' # path) in
      if p = ''/'' then []
      else filter (\<lambda>s. s \<noteq> [] \<and> s \<noteq> ''.'') (splitSep (TrimPrefixSlash p)))"

section \<open>The whiteout trie (pkg/overlay/whiteout.go)\<close>

text \<open>
  A \<open>whiteoutNode\<close> holds the Go map \<open>children\<close> as an association list read with
  \<open>map_of\<close>, written with \<open>AList.update\<close> and \<open>AList.delete\<close>, and the flag
  \<open>isWhiteout\<close>. The cache is its root node; the lock has no sequential content.
\<close>

datatype whiteoutNode =
  WhiteoutNode (children: "(string \<times> whiteoutNode) list") (isWhiteout: bool)

definition NewWhiteoutCache :: whiteoutNode where
  "NewWhiteoutCache = WhiteoutNode [] False"

fun insertLocked :: "whiteoutNode \<Rightarrow> string list \<Rightarrow> whiteoutNode" where
  "insertLocked (WhiteoutNode ch w) [] = WhiteoutNode ch True"
| "insertLocked (WhiteoutNode ch w) (part # parts) =
     (case map_of ch part of
        None \<Rightarrow>
          WhiteoutNode (AList.update part (insertLocked (WhiteoutNode [] False) parts) ch) w
      | Some child \<Rightarrow>
          WhiteoutNode (AList.update part (insertLocked child parts) ch) w)"

definition Insert :: "whiteoutNode \<Rightarrow> string \<Rightarrow> whiteoutNode" where
  "Insert root path = insertLocked root (splitPath path)"

text \<open>
  \<open>Remove\<close> walks down to the node of the path (returning without a change when a
  segment is missing), clears its flag, and then walks back up: at each level the child
  is deleted from its parent when it has no children and no flag, and the walk stops at
  the first child that is kept. \<open>removeWalk\<close> returns \<open>None\<close> for the early return,
  and otherwise the rebuilt node with a flag telling whether the walk upwards is still
  deleting.
\<close>

fun removeWalk :: "whiteoutNode \<Rightarrow> string list \<Rightarrow> (whiteoutNode \<times> bool) option" where
  "removeWalk (WhiteoutNode ch w) [] = Some (WhiteoutNode ch False, True)"
| "removeWalk (WhiteoutNode ch w) (part # parts) =
     (case map_of ch part of
        None \<Rightarrow> None
      | Some child \<Rightarrow>
          (case removeWalk child parts of
             None \<Rightarrow> None
           | Some (child', cleaning) \<Rightarrow>
               if cleaning \<and> children child' = [] \<and> \<not> isWhiteout child'
               then Some (WhiteoutNode (AList.delete part ch) w, True)
               else Some (WhiteoutNode (AList.update part child' ch) w, False)))"

definition Remove :: "whiteoutNode \<Rightarrow> string \<Rightarrow> whiteoutNode" where
  "Remove root path =
     (let parts = splitPath path in
      if parts = [] then root
      else (case removeWalk root parts of None \<Rightarrow> root | Some (root', _) \<Rightarrow> root'))"

fun exactAt :: "whiteoutNode \<Rightarrow> string list \<Rightarrow> bool" where
  "exactAt node [] = isWhiteout node"
| "exactAt node (part # parts) =
     (case map_of (children node) part of
        None \<Rightarrow> False
      | Some child \<Rightarrow> exactAt child parts)"

definition HasExactWhiteout :: "whiteoutNode \<Rightarrow> string \<Rightarrow> bool" where
  "HasExactWhiteout root path = exactAt root (splitPath path)"

fun ancestorAt :: "whiteoutNode \<Rightarrow> string list \<Rightarrow> bool" where
  "ancestorAt node [] = False"
| "ancestorAt node (part # parts) =
     (case map_of (children node) part of
        None \<Rightarrow> False
      | Some child \<Rightarrow> if isWhiteout child then True else ancestorAt child parts)"

definition HasWhiteoutAncestor :: "whiteoutNode \<Rightarrow> string \<Rightarrow> bool" where
  "HasWhiteoutAncestor root path = ancestorAt root (splitPath path)"

fun childrenAt :: "whiteoutNode \<Rightarrow> string list \<Rightarrow> string list" where
  "childrenAt node [] = map fst (filter (\<lambda>(name, child). isWhiteout child) (children node))"
| "childrenAt node (part # parts) =
     (case map_of (children node) part of
        None \<Rightarrow> []
      | Some child \<Rightarrow> childrenAt child parts)"

definition GetChildWhiteouts :: "whiteoutNode \<Rightarrow> string \<Rightarrow> string list" where
  "GetChildWhiteouts root dirPath = childrenAt root (splitPath dirPath)"

subsection \<open>Sequences of cache operations and the set they denote\<close>

datatype cacheOp = OpInsert string | OpRemove string

fun applyOp :: "whiteoutNode \<Rightarrow> cacheOp \<Rightarrow> whiteoutNode" where
  "applyOp root (OpInsert path) = Insert root path"
| "applyOp root (OpRemove path) = Remove root path"

definition applyOps :: "whiteoutNode \<Rightarrow> cacheOp list \<Rightarrow> whiteoutNode" where
  "applyOps root ops = foldl applyOp root ops"

text \<open>
  The paths inserted and not removed afterwards, as normalised segment lists: the
  reading of the whiteout table that the trie is compared with.
\<close>

fun liveAfter :: "string list set \<Rightarrow> cacheOp list \<Rightarrow> string list set" where
  "liveAfter S [] = S"
| "liveAfter S (OpInsert path # ops) = liveAfter (insert (splitPath path) S) ops"
| "liveAfter S (OpRemove path # ops) = liveAfter (S - {splitPath path}) ops"

text \<open>
  The reading of "a whiteout covers the path": some non-empty prefix of the path's
  segments, the whole path included, carries a whiteout.
\<close>

definition coveredBy :: "whiteoutNode \<Rightarrow> string list \<Rightarrow> bool" where
  "coveredBy node ps = (\<exists>n\<in>{1..length ps}. exactAt node (take n ps))"

section \<open>Errors and file modes (pkg/overlay/filesystem.go, package db)\<close>

text \<open>
  The sentinel errors of package \<open>overlay\<close>, the three of package \<open>db\<close> (distinct Go
  values, mapped by the callers that check for them), \<open>SqlError\<close> for a statement the
  database rejects (a constraint, a failed scan), \<open>OsError\<close> for a host error that
  \<open>HostFS\<close> passes through unchanged, and \<open>Panic\<close> for a run-time panic.
\<close>

datatype error =
    ErrNotFound | ErrExists | ErrNotEmpty | ErrNotDir | ErrIsDir | ErrInvalid
  | ErrNoAccess | ErrReadOnly | ErrCrossLink
  | DbErrNotFound | DbErrExists | DbErrNotEmpty
  | SqlError | OsError | Panic

type_synonym byte = "8 word"
type_synonym mode_t = "32 word"

definition S_IFMT :: mode_t where "S_IFMT = 61440"   \<comment> \<open>0o170000\<close>
definition S_IFDIR :: mode_t where "S_IFDIR = 16384"  \<comment> \<open>0o040000\<close>
definition S_IFREG :: mode_t where "S_IFREG = 32768"  \<comment> \<open>0o100000\<close>
definition S_IFLNK :: mode_t where "S_IFLNK = 40960"  \<comment> \<open>0o120000\<close>

section \<open>The store (package db)\<close>

text \<open>
  One table per field. \<open>fs_inode\<close>, \<open>fs_data\<close>, \<open>fs_symlink\<close> and \<open>fs_origin\<close> are read
  through their primary keys and are maps; \<open>fs_dentry\<close> is the list of its rows, with the
  \<open>UNIQUE(parent_ino, name)\<close> constraint and the foreign keys checked on insertion;
  \<open>fs_whiteout\<close> is the list of its paths. \<open>nextIno\<close> is the value the
  \<open>AUTOINCREMENT\<close> key gives the next inode. The clock \<open>nowUnix()\<close> is the argument
  \<open>now\<close> of the operations that read it. Integers of the Go code (\<open>int64\<close>,
  \<open>uint64\<close>) are mathematical integers here; the statements say where a range is
  assumed. Failures of the database connection itself are outside the model.
\<close>

record Inode =
  Ino :: nat
  Mode :: mode_t
  Nlink :: int
  UID :: "32 word"
  GID :: "32 word"
  Size :: int
  Atime :: int
  Mtime :: int
  Ctime :: int

datatype Dentry = Dentry (ParentIno: nat) (Name: string) (DentryIno: nat)

record Store =
  chunkSize :: int
  nextIno :: nat
  fs_inode :: "nat \<rightharpoonup> Inode"
  fs_dentry :: "Dentry list"
  fs_data :: "nat \<times> int \<rightharpoonup> byte list"
  fs_symlink :: "nat \<rightharpoonup> string"
  fs_whiteout :: "string list"
  fs_origin :: "nat \<rightharpoonup> nat"

definition IsDir :: "Inode \<Rightarrow> bool" where
  "IsDir i = (Mode i AND S_IFMT = S_IFDIR)"

definition IsRegular :: "Inode \<Rightarrow> bool" where
  "IsRegular i = (Mode i AND S_IFMT = S_IFREG)"

definition IsSymlink :: "Inode \<Rightarrow> bool" where
  "IsSymlink i = (Mode i AND S_IFMT = S_IFLNK)"

text \<open>\<open>initSchema\<close> on a new database: the root inode 1 with mode 0o40755 and nlink 2.\<close>

definition initSchema :: "int \<Rightarrow> int \<Rightarrow> Store" where
  "initSchema cs now =
     \<lparr> chunkSize = cs, nextIno = 2,
       fs_inode = [1 \<mapsto> \<lparr> Ino = 1, Mode = 16877, Nlink = 2, UID = 0, GID = 0, Size = 0,
                             Atime = now, Mtime = now, Ctime = now \<rparr>],
       fs_dentry = [], fs_data = Map.empty, fs_symlink = Map.empty,
       fs_whiteout = [], fs_origin = Map.empty \<rparr>"

subsection \<open>Inodes\<close>

definition CreateInodeTx :: "Store \<Rightarrow> int \<Rightarrow> mode_t \<Rightarrow> 32 word \<Rightarrow> 32 word \<Rightarrow> nat \<times> Store" where
  "CreateInodeTx s now mode uid gid =
     (let ino = nextIno s in
      (ino, s\<lparr> nextIno := ino + 1,
               fs_inode := (fs_inode s)(ino \<mapsto>
                 \<lparr> Ino = ino, Mode = mode, Nlink = 1, UID = uid, GID = gid, Size = 0,
                   Atime = now, Mtime = now, Ctime = now \<rparr>) \<rparr>))"

definition GetInode :: "Store \<Rightarrow> nat \<Rightarrow> error + Inode" where
  "GetInode s ino = (case fs_inode s ino of None \<Rightarrow> Inl DbErrNotFound | Some i \<Rightarrow> Inr i)"

definition updateRow :: "Store \<Rightarrow> nat \<Rightarrow> (Inode \<Rightarrow> Inode) \<Rightarrow> Store" where
  \<comment> \<open>\<open>UPDATE fs_inode SET ... WHERE ino = ?\<close>: no row, no change, no error\<close>
  "updateRow s ino f =
     (case fs_inode s ino of
        None \<Rightarrow> s
      | Some i \<Rightarrow> s\<lparr> fs_inode := (fs_inode s)(ino \<mapsto> f i) \<rparr>)"


text \<open>
  A \<open>uint64\<close> argument of a statement goes through the converter of \<open>database/sql\<close>,
  which refuses a value with the high bit set. \<open>UpdateSize\<close> gets its size from a file
  offset, so the refusal is a branch of it; \<open>UpdateSizeTx\<close> is called with the length
  of a byte slice or a string, which is below \<open>2^63\<close>. The inode numbers of the store
  are row numbers of SQLite, below \<open>2^63\<close> as well.
\<close>

definition UpdateSizeTx :: "Store \<Rightarrow> int \<Rightarrow> nat \<Rightarrow> int \<Rightarrow> Store" where
  "UpdateSizeTx s now ino sz = updateRow s ino (\<lambda>i. i\<lparr> Size := sz, Mtime := now, Ctime := now \<rparr>)"

definition UpdateSize :: "Store \<Rightarrow> int \<Rightarrow> nat \<Rightarrow> int \<Rightarrow> error + Store" where
  \<comment> \<open>\<open>sz\<close> is the value of a \<open>uint64\<close>\<close>
  "UpdateSize s now ino sz =
     (if 2 ^ 63 \<le> sz then Inl SqlError
      else Inr (updateRow s ino (\<lambda>i. i\<lparr> Size := sz, Mtime := now, Ctime := now \<rparr>)))"

definition UpdateTimes :: "Store \<Rightarrow> int \<Rightarrow> nat \<Rightarrow> int option \<Rightarrow> int option \<Rightarrow> Store" where
  "UpdateTimes s now ino atime mtime =
     (let atime' = (case atime of None \<Rightarrow> now | Some t \<Rightarrow> t);
          mtime' = (case mtime of None \<Rightarrow> now | Some t \<Rightarrow> t)
      in updateRow s ino (\<lambda>i. i\<lparr> Atime := atime', Mtime := mtime', Ctime := now \<rparr>))"

definition IncrNlinkTx :: "Store \<Rightarrow> int \<Rightarrow> nat \<Rightarrow> Store" where
  "IncrNlinkTx s now ino = updateRow s ino (\<lambda>i. i\<lparr> Nlink := Nlink i + 1, Ctime := now \<rparr>)"

definition DecrNlinkTx :: "Store \<Rightarrow> int \<Rightarrow> nat \<Rightarrow> error + (int \<times> Store)" where
  \<comment> \<open>the new count is scanned into a \<open>uint32\<close>: no row or a negative count is an error\<close>
  "DecrNlinkTx s now ino =
     (let s' = updateRow s ino (\<lambda>i. i\<lparr> Nlink := Nlink i - 1, Ctime := now \<rparr>) in
      case fs_inode s' ino of
        None \<Rightarrow> Inl SqlError
      | Some i \<Rightarrow> if Nlink i < 0 then Inl SqlError else Inr (Nlink i, s'))"


subsection \<open>Directory entries\<close>

definition Lookup :: "Store \<Rightarrow> nat \<Rightarrow> string \<Rightarrow> error + nat" where
  "Lookup s parentIno name =
     (case find (\<lambda>d. ParentIno d = parentIno \<and> Name d = name) (fs_dentry s) of
        None \<Rightarrow> Inl DbErrNotFound
      | Some d \<Rightarrow> Inr (DentryIno d))"

definition HasChildren :: "Store \<Rightarrow> nat \<Rightarrow> bool" where
  "HasChildren s parentIno = (0 < length (filter (\<lambda>d. ParentIno d = parentIno) (fs_dentry s)))"

definition CreateDentryTx :: "Store \<Rightarrow> nat \<Rightarrow> string \<Rightarrow> nat \<Rightarrow> error + Store" where
  "CreateDentryTx s parentIno name ino =
     (if \<exists>d \<in> set (fs_dentry s). ParentIno d = parentIno \<and> Name d = name then Inl DbErrExists
      else if fs_inode s parentIno = None \<or> fs_inode s ino = None then Inl SqlError
      else Inr (s\<lparr> fs_dentry := fs_dentry s @ [Dentry parentIno name ino] \<rparr>))"

definition DeleteDentryTx :: "Store \<Rightarrow> nat \<Rightarrow> string \<Rightarrow> error + Store" where
  "DeleteDentryTx s parentIno name =
     (if \<exists>d \<in> set (fs_dentry s). ParentIno d = parentIno \<and> Name d = name
      then Inr (s\<lparr> fs_dentry :=
                  filter (\<lambda>d. \<not> (ParentIno d = parentIno \<and> Name d = name)) (fs_dentry s) \<rparr>)
      else Inl DbErrNotFound)"

text \<open>
  \<open>DELETE FROM fs_inode\<close> with the schema's \<open>ON DELETE CASCADE\<close> clauses: the rows of
  the other tables that refer to the inode go with it.
\<close>

definition DeleteInodeTx :: "Store \<Rightarrow> nat \<Rightarrow> Store" where
  "DeleteInodeTx s ino =
     s\<lparr> fs_inode := (fs_inode s)(ino := None),
        fs_dentry := filter (\<lambda>d. ParentIno d \<noteq> ino \<and> DentryIno d \<noteq> ino) (fs_dentry s),
        fs_data := (\<lambda>(i, c). if i = ino then None else fs_data s (i, c)),
        fs_symlink := (fs_symlink s)(ino := None),
        fs_origin := (fs_origin s)(ino := None) \<rparr>"

subsection \<open>Symlinks, whiteouts, origins\<close>

definition CreateSymlinkTx :: "Store \<Rightarrow> nat \<Rightarrow> string \<Rightarrow> error + Store" where
  "CreateSymlinkTx s ino target =
     (if fs_symlink s ino \<noteq> None \<or> fs_inode s ino = None then Inl SqlError
      else Inr (s\<lparr> fs_symlink := (fs_symlink s)(ino \<mapsto> target) \<rparr>))"

definition DeleteSymlinkTx :: "Store \<Rightarrow> nat \<Rightarrow> Store" where
  "DeleteSymlinkTx s ino = s\<lparr> fs_symlink := (fs_symlink s)(ino := None) \<rparr>"

definition DeleteDataTx :: "Store \<Rightarrow> nat \<Rightarrow> Store" where
  "DeleteDataTx s ino = s\<lparr> fs_data := (\<lambda>(i, c). if i = ino then None else fs_data s (i, c)) \<rparr>"

definition normalizePath :: "string \<Rightarrow> string" where
  \<comment> \<open>a leading separator is added when missing; \<open>Clean\<close> does the rest\<close>
  "normalizePath path =
     Clean (case path of [] \<Rightarrow> ''/'' | c # cs \<Rightarrow> if c = CHR ''/'' then path else CHR ''/'' # path)"

definition CreateWhiteout :: "Store \<Rightarrow> string \<Rightarrow> Store" where
  "CreateWhiteout s path =
     (let p = normalizePath path in
      s\<lparr> fs_whiteout := filter (\<lambda>q. q \<noteq> p) (fs_whiteout s) @ [p] \<rparr>)"

definition DeleteWhiteout :: "Store \<Rightarrow> string \<Rightarrow> Store" where
  "DeleteWhiteout s path =
     (let p = normalizePath path in s\<lparr> fs_whiteout := filter (\<lambda>q. q \<noteq> p) (fs_whiteout s) \<rparr>)"


definition GetOrigin :: "Store \<Rightarrow> nat \<Rightarrow> nat" where
  "GetOrigin s deltaIno = (case fs_origin s deltaIno of None \<Rightarrow> 0 | Some b \<Rightarrow> b)"

definition DeleteOrigin :: "Store \<Rightarrow> nat \<Rightarrow> Store" where
  "DeleteOrigin s deltaIno = s\<lparr> fs_origin := (fs_origin s)(deltaIno := None) \<rparr>"

subsection \<open>File data in chunks (ReadData, writeDataTx, truncateTx)\<close>

text \<open>
  Offsets and lengths are \<open>int64\<close> values, written as integers. Go's integer division
  truncates towards zero, and a sum that leaves the range of \<open>int64\<close> wraps around.
  With a chunk size and a data length below \<open>2^62\<close>, the one sum of \<open>ReadData\<close> and
  \<open>writeDataTx\<close> that can leave the range is \<open>offset + length - 1\<close>, at the top of the
  offsets, and \<open>wrap64\<close> is written out there. \<open>u64\<close> is the conversion \<open>uint64(x)\<close>
  and the wrap-around of a \<open>uint64\<close> sum.
\<close>

definition wrap64 :: "int \<Rightarrow> int" where
  "wrap64 x = (x + 2 ^ 63) mod 2 ^ 64 - 2 ^ 63"

definition u64 :: "int \<Rightarrow> int" where
  "u64 x = x mod 2 ^ 64"

definition quot :: "int \<Rightarrow> int \<Rightarrow> int" where
  "quot a b = sgn a * sgn b * (\<bar>a\<bar> div \<bar>b\<bar>)"

definition subslice :: "'a list \<Rightarrow> int \<Rightarrow> int \<Rightarrow> 'a list" where
  \<comment> \<open>\<open>data[lo:hi]\<close>, used where the code has checked the bounds\<close>
  "subslice xs lo hi = take (nat (hi - lo)) (drop (nat lo) xs)"

definition chunkRows :: "Store \<Rightarrow> nat \<Rightarrow> int \<Rightarrow> int \<Rightarrow> (int \<times> byte list) list" where
  \<comment> \<open>\<open>SELECT chunk_index, data ... WHERE chunk_index BETWEEN lo AND hi ORDER BY chunk_index\<close>\<close>
  "chunkRows s ino lo hi =
     List.map_filter (\<lambda>c. map_option (Pair c) (fs_data s (ino, c))) [lo..hi]"

fun readLoop ::
  "int \<Rightarrow> int \<Rightarrow> int \<Rightarrow> (int \<times> byte list) list \<Rightarrow> byte list \<Rightarrow> int \<Rightarrow> byte list" where
  "readLoop cs offset len [] result bytesRead = result"
| "readLoop cs offset len ((chunkIdx, data) # rows) result bytesRead =
     (if bytesRead < len then
        (let chunkStart = chunkIdx * cs;
             readStart = (if offset > chunkStart then offset - chunkStart else 0);
             remaining = len - bytesRead;
             readEnd = (if int (length data) - readStart > remaining
                        then readStart + remaining else int (length data))
         in if readStart < int (length data) \<and> readEnd > readStart then
              (let readEnd' = (if readEnd > int (length data) then int (length data) else readEnd)
               in readLoop cs offset len rows
                    (result @ subslice data readStart readEnd') (bytesRead + (readEnd' - readStart)))
            else readLoop cs offset len rows result bytesRead)
      else result)"

definition ReadData :: "Store \<Rightarrow> nat \<Rightarrow> int \<Rightarrow> int \<Rightarrow> error + byte list" where
  "ReadData s ino offset len =
     (if len \<le> 0 then Inr []
      else if chunkSize s = 0 then Inl Panic
      else
        (let startChunk = quot offset (chunkSize s);
             endChunk = quot (wrap64 (offset + len - 1)) (chunkSize s)
         in Inr (readLoop (chunkSize s) offset len (chunkRows s ino startChunk endChunk) [] 0)))"

text \<open>
  One round of the loop of \<open>writeDataTx\<close>: the chunk is read when the write does not
  cover it whole, widened or allocated with zeros, overwritten from \<open>writeStart\<close>, and
  stored with \<open>INSERT OR REPLACE\<close> (\<open>ino\<close> is a foreign key into \<open>fs_inode\<close>).
\<close>

definition widenChunk :: "byte list \<Rightarrow> int \<Rightarrow> byte list" where
  \<comment> \<open>"Build new chunk data": the existing bytes, widened with zeros to \<open>neededLen\<close>\<close>
  "widenChunk existingData neededLen =
     (if length existingData > 0 then
        (if int (length existingData) < neededLen
         then existingData @ replicate (nat neededLen - length existingData) 0
         else existingData)
      else replicate (nat neededLen) 0)"

definition copyInto :: "'a list \<Rightarrow> int \<Rightarrow> 'a list \<Rightarrow> 'a list" where
  \<comment> \<open>Go's \<open>copy(dst[start:], src)\<close>: as many elements as fit\<close>
  "copyInto dst start src =
     take (nat start) dst @ take (length dst - nat start) src
     @ drop (nat start + length src) dst"

definition writeChunk ::
  "Store \<Rightarrow> nat \<Rightarrow> int \<Rightarrow> byte list \<Rightarrow> int \<Rightarrow> int \<Rightarrow> error + (int \<times> Store)" where
  "writeChunk s ino offset data chunkIdx dataOffset =
     (let cs = chunkSize s;
          dataLen = int (length data);
          chunkStart = chunkIdx * cs;
          writeStart = (if offset > chunkStart then offset - chunkStart else 0);
          writeLen = (if dataOffset + (cs - writeStart) > dataLen
                      then dataLen - dataOffset else cs - writeStart);
          existingData = (if writeStart > 0 \<or> writeLen < cs
                          then (case fs_data s (ino, chunkIdx) of None \<Rightarrow> [] | Some d \<Rightarrow> d)
                          else []);
          newChunk = copyInto (widenChunk existingData (writeStart + writeLen)) writeStart
                       (subslice data dataOffset (dataOffset + writeLen))
      in if fs_inode s ino = None then Inl SqlError
         else Inr (dataOffset + writeLen,
                   s\<lparr> fs_data := (fs_data s)((ino, chunkIdx) \<mapsto> newChunk) \<rparr>))"

fun writeLoop ::
  "Store \<Rightarrow> nat \<Rightarrow> int \<Rightarrow> byte list \<Rightarrow> int list \<Rightarrow> int \<Rightarrow> error + Store" where
  "writeLoop s ino offset data [] dataOffset = Inr s"
| "writeLoop s ino offset data (chunkIdx # rest) dataOffset =
     (case writeChunk s ino offset data chunkIdx dataOffset of
        Inl e \<Rightarrow> Inl e
      | Inr (dataOffset', s') \<Rightarrow> writeLoop s' ino offset data rest dataOffset')"

text \<open>
  The loop runs \<open>chunkIdx\<close> from \<open>startChunk\<close> to \<open>endChunk\<close>. When \<open>endChunk\<close> is the
  largest \<open>int64\<close>, which takes a chunk size of 1, \<open>chunkIdx++\<close> wraps around after the
  last chunk and the next round asks \<open>make\<close> for a slice of negative length.
\<close>

definition writeDataTx :: "Store \<Rightarrow> nat \<Rightarrow> int \<Rightarrow> byte list \<Rightarrow> error + Store" where
  "writeDataTx s ino offset data =
     (if length data = 0 then Inr s
      else if chunkSize s = 0 then Inl Panic
      else
        (let startChunk = quot offset (chunkSize s);
             endChunk = quot (wrap64 (offset + int (length data) - 1)) (chunkSize s)
         in case writeLoop s ino offset data [startChunk..endChunk] 0 of
              Inl e \<Rightarrow> Inl e
            | Inr s' \<Rightarrow> if endChunk = 2 ^ 63 - 1 then Inl Panic else Inr s'))"

definition WriteData :: "Store \<Rightarrow> nat \<Rightarrow> int \<Rightarrow> byte list \<Rightarrow> error + Store" where
  \<comment> \<open>\<open>WithTx\<close>: an error rolls back, and the caller keeps the store it had\<close>
  "WriteData s ino offset data = (if length data = 0 then Inr s else writeDataTx s ino offset data)"

definition truncateTx :: "Store \<Rightarrow> nat \<Rightarrow> int \<Rightarrow> error + Store" where
  \<comment> \<open>\<open>sz\<close> is the value of a \<open>uint64\<close>, and \<open>wrap64 sz\<close> is \<open>int64(size)\<close>\<close>
  "truncateTx s ino sz =
     (if sz = 0 then Inr (DeleteDataTx s ino)
      else if chunkSize s = 0 then Inl Panic
      else
        (let lastChunk = quot (wrap64 (wrap64 sz - 1)) (chunkSize s);
             s1 = s\<lparr> fs_data := (\<lambda>(i, c). if i = ino \<and> c > lastChunk then None
                                            else fs_data s (i, c)) \<rparr>;
             offsetInLastChunk = wrap64 sz - lastChunk * chunkSize s
         in case fs_data s1 (ino, lastChunk) of
              None \<Rightarrow> Inr s1
            | Some existingData \<Rightarrow>
                if int (length existingData) > offsetInLastChunk
                then Inr (s1\<lparr> fs_data := (fs_data s1)((ino, lastChunk) \<mapsto>
                                 take (nat offsetInLastChunk) existingData) \<rparr>)
                else Inr s1))"

text \<open>
  The three quantities a round of the write loop computes for the chunk \<open>k\<close>, as
  functions of the chunk index: where the write starts inside the chunk, how many bytes
  of the data have been written before the chunk, and how many go into it.
\<close>

definition wStart :: "int \<Rightarrow> int \<Rightarrow> int \<Rightarrow> int" where
  "wStart cs offset k = (if offset > k * cs then offset - k * cs else 0)"

definition dStart :: "int \<Rightarrow> int \<Rightarrow> int \<Rightarrow> int" where
  "dStart cs offset k = (if k * cs > offset then k * cs - offset else 0)"

definition wLen :: "int \<Rightarrow> int \<Rightarrow> int \<Rightarrow> int \<Rightarrow> int" where
  "wLen cs offset dataLen k =
     (if dStart cs offset k + (cs - wStart cs offset k) > dataLen
      then dataLen - dStart cs offset k else cs - wStart cs offset k)"

text \<open>The store invariant on chunks: no chunk of the file is longer than the chunk size.\<close>

definition chunksBounded :: "Store \<Rightarrow> nat \<Rightarrow> bool" where
  "chunksBounded s ino = (\<forall>k d. fs_data s (ino, k) = Some d \<longrightarrow> int (length d) \<le> chunkSize s)"

text \<open>
  What the chunk \<open>k\<close> must hold once the write is done: it reaches the end of the
  written part, stays within the chunk size, and carries the data's bytes there.
\<close>

definition chunkHolds :: "int \<Rightarrow> int \<Rightarrow> byte list \<Rightarrow> byte list \<Rightarrow> int \<Rightarrow> bool" where
  "chunkHolds cs offset b d k =
     (wStart cs offset k + wLen cs offset (int (length b)) k \<le> int (length d) \<and>
      int (length d) \<le> cs \<and>
      subslice d (wStart cs offset k) (wStart cs offset k + wLen cs offset (int (length b)) k)
      = subslice b (dStart cs offset k) (dStart cs offset k + wLen cs offset (int (length b)) k))"

section \<open>The delta filesystem (pkg/overlay/agentfs.go)\<close>

text \<open>
  \<open>AgentFS\<close> is the store and the dentry cache. The cache is a map from (parent inode,
  name) to the child inode; the eviction of the LRU library is not modelled, and no
  theorem below assumes anything about what the cache holds unless it says so. Every
  operation returns its result and the \<open>AgentFS\<close> it leaves behind.
\<close>

record Stats =
  stIno :: nat
  stMode :: mode_t
  stNlink :: int
  stUid :: "32 word"
  stGid :: "32 word"
  stSize :: int
  stAtime :: int
  stMtime :: int
  stCtime :: int

definition StatsIsDir :: "Stats \<Rightarrow> bool" where
  "StatsIsDir st = (stMode st AND S_IFMT = S_IFDIR)"

definition StatsIsRegular :: "Stats \<Rightarrow> bool" where
  "StatsIsRegular st = (stMode st AND S_IFMT = S_IFREG)"

definition StatsIsSymlink :: "Stats \<Rightarrow> bool" where
  "StatsIsSymlink st = (stMode st AND S_IFMT = S_IFLNK)"

definition Perm :: "Stats \<Rightarrow> mode_t" where
  "Perm st = stMode st AND 511"

definition inodeToStats :: "Inode \<Rightarrow> Stats" where
  "inodeToStats inode =
     \<lparr> stIno = Ino inode, stMode = Mode inode, stNlink = Nlink inode, stUid = UID inode,
       stGid = GID inode, stSize = Size inode, stAtime = Atime inode, stMtime = Mtime inode,
       stCtime = Ctime inode \<rparr>"

record AgentFS =
  store :: Store
  cache :: "nat \<times> string \<rightharpoonup> nat"

definition NewAgentFS :: "Store \<Rightarrow> AgentFS" where
  "NewAgentFS s = \<lparr> store = s, cache = Map.empty \<rparr>"

definition mapNotFound :: "error \<Rightarrow> error" where
  \<comment> \<open>\<open>if err == db.ErrNotFound { return ErrNotFound }; return err\<close>\<close>
  "mapNotFound e = (if e = DbErrNotFound then ErrNotFound else e)"

definition mapExists :: "error \<Rightarrow> error" where
  "mapExists e = (if e = DbErrExists then ErrExists else e)"

fun resolveWalk :: "AgentFS \<Rightarrow> nat \<Rightarrow> string list \<Rightarrow> (error + nat) \<times> AgentFS" where
  "resolveWalk a ino [] = (Inr ino, a)"
| "resolveWalk a ino (part # parts) =
     (case cache a (ino, part) of
        Some childIno \<Rightarrow> resolveWalk a childIno parts
      | None \<Rightarrow>
          (case Lookup (store a) ino part of
             Inl e \<Rightarrow> (Inl (mapNotFound e), a)
           | Inr childIno \<Rightarrow>
               resolveWalk (a\<lparr> cache := (cache a)((ino, part) \<mapsto> childIno) \<rparr>) childIno parts))"

definition resolvePath :: "AgentFS \<Rightarrow> string \<Rightarrow> (error + nat) \<times> AgentFS" where
  "resolvePath a path = resolveWalk a 1 (splitPath path)"

definition resolveParentAndName ::
  "AgentFS \<Rightarrow> string \<Rightarrow> (error + nat \<times> string) \<times> AgentFS" where
  "resolveParentAndName a path =
     (let parts = splitPath path in
      if parts = [] then (Inl ErrInvalid, a)
      else
        (case resolvePath a (joinPath (butlast parts)) of
           (Inl e, a') \<Rightarrow> (Inl e, a')
         | (Inr parentIno, a') \<Rightarrow> (Inr (parentIno, last parts), a')))"

definition invalidateCache :: "AgentFS \<Rightarrow> nat \<Rightarrow> string \<Rightarrow> AgentFS" where
  "invalidateCache a parentIno name = a\<lparr> cache := (cache a)((parentIno, name) := None) \<rparr>"

definition AgentFS_Lstat :: "AgentFS \<Rightarrow> string \<Rightarrow> (error + Stats) \<times> AgentFS" where
  "AgentFS_Lstat a path =
     (case resolvePath a path of
        (Inl e, a') \<Rightarrow> (Inl e, a')
      | (Inr ino, a') \<Rightarrow>
          (case GetInode (store a') ino of
             Inl e \<Rightarrow> (Inl (mapNotFound e), a')
           | Inr inode \<Rightarrow> (Inr (inodeToStats inode), a')))"


definition GetIno :: "AgentFS \<Rightarrow> string \<Rightarrow> (error + nat) \<times> AgentFS" where
  "GetIno a path = resolvePath a path"

text \<open>The transaction of \<open>Mkdir\<close>: inode, dentry, parent's link count.\<close>

definition mkdirTx :: "Store \<Rightarrow> int \<Rightarrow> nat \<Rightarrow> string \<Rightarrow> mode_t \<Rightarrow> error + Store" where
  "mkdirTx s now parentIno name mode =
     (case CreateInodeTx s now (S_IFDIR OR mode) 0 0 of
        (ino, s1) \<Rightarrow>
          (case CreateDentryTx s1 parentIno name ino of
             Inl e \<Rightarrow> Inl (mapExists e)
           | Inr s2 \<Rightarrow> Inr (IncrNlinkTx s2 now parentIno)))"

definition withStore :: "AgentFS \<Rightarrow> error + Store \<Rightarrow> (error + unit) \<times> AgentFS" where
  \<comment> \<open>the outcome of \<open>WithTx\<close>: commit the new store, or keep the old one\<close>
  "withStore a r = (case r of Inl e \<Rightarrow> (Inl e, a) | Inr s' \<Rightarrow> (Inr (), a\<lparr> store := s' \<rparr>))"

definition AgentFS_Mkdir :: "AgentFS \<Rightarrow> int \<Rightarrow> string \<Rightarrow> mode_t \<Rightarrow> (error + unit) \<times> AgentFS" where
  "AgentFS_Mkdir a now path mode =
     (case resolveParentAndName a path of
        (Inl e, a') \<Rightarrow> (Inl e, a')
      | (Inr (parentIno, name), a') \<Rightarrow>
          withStore a' (mkdirTx (store a') now parentIno name mode))"

definition rmdirTx :: "Store \<Rightarrow> int \<Rightarrow> nat \<Rightarrow> string \<Rightarrow> nat \<Rightarrow> error + Store" where
  "rmdirTx s now parentIno name ino =
     (case DeleteDentryTx s parentIno name of
        Inl e \<Rightarrow> Inl e
      | Inr s1 \<Rightarrow>
          (case DecrNlinkTx (DeleteInodeTx s1 ino) now parentIno of
             Inl e \<Rightarrow> Inl e
           | Inr (_, s3) \<Rightarrow> Inr s3))"

definition rmdirOp :: "Store \<Rightarrow> int \<Rightarrow> nat \<Rightarrow> string \<Rightarrow> error + Store" where
  \<comment> \<open>\<open>Rmdir\<close> after the parent is resolved: lookup, checks, transaction\<close>
  "rmdirOp s now parentIno name =
     (case Lookup s parentIno name of
        Inl e \<Rightarrow> Inl (mapNotFound e)
      | Inr ino \<Rightarrow>
          (case GetInode s ino of
             Inl e \<Rightarrow> Inl e
           | Inr inode \<Rightarrow>
               if \<not> IsDir inode then Inl ErrNotDir
               else if HasChildren s ino then Inl ErrNotEmpty
               else rmdirTx s now parentIno name ino))"

definition AgentFS_Rmdir :: "AgentFS \<Rightarrow> int \<Rightarrow> string \<Rightarrow> (error + unit) \<times> AgentFS" where
  "AgentFS_Rmdir a now path =
     (case resolveParentAndName a path of
        (Inl e, a') \<Rightarrow> (Inl e, a')
      | (Inr (parentIno, name), a') \<Rightarrow>
          (case rmdirOp (store a') now parentIno name of
             Inl e \<Rightarrow> (Inl e, a')
           | Inr s' \<Rightarrow> (Inr (), invalidateCache (a'\<lparr> store := s' \<rparr>) parentIno name)))"

definition createTx :: "Store \<Rightarrow> int \<Rightarrow> nat \<Rightarrow> string \<Rightarrow> mode_t \<Rightarrow> error + (nat \<times> Store)" where
  "createTx s now parentIno name mode =
     (case CreateInodeTx s now (S_IFREG OR mode) 0 0 of
        (ino, s1) \<Rightarrow>
          (case CreateDentryTx s1 parentIno name ino of
             Inl e \<Rightarrow> Inl (mapExists e)
           | Inr s2 \<Rightarrow> Inr (ino, s2)))"

text \<open>An open delta file is its inode number; the handle reads and writes the store.\<close>

definition AgentFS_Create ::
  "AgentFS \<Rightarrow> int \<Rightarrow> string \<Rightarrow> mode_t \<Rightarrow> (error + nat \<times> Stats) \<times> AgentFS" where
  "AgentFS_Create a now path mode =
     (case resolveParentAndName a path of
        (Inl e, a') \<Rightarrow> (Inl e, a')
      | (Inr (parentIno, name), a') \<Rightarrow>
          (case createTx (store a') now parentIno name mode of
             Inl e \<Rightarrow> (Inl e, a')
           | Inr (ino, s') \<Rightarrow>
               (case GetInode s' ino of
                  Inl e \<Rightarrow> (Inl e, a'\<lparr> store := s' \<rparr>)
                | Inr inode \<Rightarrow> (Inr (ino, inodeToStats inode), a'\<lparr> store := s' \<rparr>))))"

definition removeTx :: "Store \<Rightarrow> int \<Rightarrow> nat \<Rightarrow> string \<Rightarrow> nat \<Rightarrow> Inode \<Rightarrow> error + Store" where
  "removeTx s now parentIno name ino inode =
     (case DeleteDentryTx s parentIno name of
        Inl e \<Rightarrow> Inl e
      | Inr s1 \<Rightarrow>
          (case DecrNlinkTx s1 now ino of
             Inl e \<Rightarrow> Inl e
           | Inr (remaining, s2) \<Rightarrow>
               if remaining = 0 then
                 Inr (DeleteInodeTx
                        (if IsSymlink inode then DeleteSymlinkTx s2 ino else DeleteDataTx s2 ino)
                        ino)
               else Inr s2))"

definition removeOp :: "Store \<Rightarrow> int \<Rightarrow> nat \<Rightarrow> string \<Rightarrow> error + Store" where
  "removeOp s now parentIno name =
     (case Lookup s parentIno name of
        Inl e \<Rightarrow> Inl (mapNotFound e)
      | Inr ino \<Rightarrow>
          (case GetInode s ino of
             Inl e \<Rightarrow> Inl e
           | Inr inode \<Rightarrow>
               if IsDir inode then Inl ErrIsDir
               else removeTx s now parentIno name ino inode))"

definition AgentFS_Remove :: "AgentFS \<Rightarrow> int \<Rightarrow> string \<Rightarrow> (error + unit) \<times> AgentFS" where
  "AgentFS_Remove a now path =
     (case resolveParentAndName a path of
        (Inl e, a') \<Rightarrow> (Inl e, a')
      | (Inr (parentIno, name), a') \<Rightarrow>
          (case removeOp (store a') now parentIno name of
             Inl e \<Rightarrow> (Inl e, a')
           | Inr s' \<Rightarrow> (Inr (), invalidateCache (a'\<lparr> store := s' \<rparr>) parentIno name)))"

definition linkOp :: "Store \<Rightarrow> int \<Rightarrow> nat \<Rightarrow> nat \<Rightarrow> string \<Rightarrow> error + Store" where
  \<comment> \<open>the transaction of \<open>Link\<close>: dentry, then the source's link count\<close>
  "linkOp s now srcIno dstParentIno dstName =
     (case CreateDentryTx s dstParentIno dstName srcIno of
        Inl e \<Rightarrow> Inl (mapExists e)
      | Inr s1 \<Rightarrow> Inr (IncrNlinkTx s1 now srcIno))"

definition AgentFS_Link :: "AgentFS \<Rightarrow> int \<Rightarrow> string \<Rightarrow> string \<Rightarrow> (error + unit) \<times> AgentFS" where
  "AgentFS_Link a now oldpath newpath =
     (case resolvePath a oldpath of
        (Inl e, a1) \<Rightarrow> (Inl e, a1)
      | (Inr srcIno, a1) \<Rightarrow>
          (case GetInode (store a1) srcIno of
             Inl e \<Rightarrow> (Inl e, a1)
           | Inr inode \<Rightarrow>
               if IsDir inode then (Inl ErrIsDir, a1)
               else
                 (case resolveParentAndName a1 newpath of
                    (Inl e, a2) \<Rightarrow> (Inl e, a2)
                  | (Inr (dstParentIno, dstName), a2) \<Rightarrow>
                      withStore a2 (linkOp (store a2) now srcIno dstParentIno dstName))))"


definition AgentFS_Utimens ::
  "AgentFS \<Rightarrow> int \<Rightarrow> string \<Rightarrow> int option \<Rightarrow> int option \<Rightarrow> (error + unit) \<times> AgentFS" where
  "AgentFS_Utimens a now path atime mtime =
     (case resolvePath a path of
        (Inl e, a') \<Rightarrow> (Inl e, a')
      | (Inr ino, a') \<Rightarrow> (Inr (), a'\<lparr> store := UpdateTimes (store a') now ino atime mtime \<rparr>))"

subsection \<open>File handles (AgentFile)\<close>

definition AgentFile_Read :: "Store \<Rightarrow> nat \<Rightarrow> nat \<Rightarrow> int \<Rightarrow> error + byte list" where
  \<comment> \<open>the bytes copied into \<open>dest\<close>, whose length is \<open>destLen\<close>\<close>
  "AgentFile_Read s ino destLen offset =
     (case ReadData s ino offset (int destLen) of
        Inl e \<Rightarrow> Inl e
      | Inr data \<Rightarrow> Inr (take destLen data))"

definition AgentFile_Write ::
  "Store \<Rightarrow> int \<Rightarrow> nat \<Rightarrow> byte list \<Rightarrow> int \<Rightarrow> (error + nat) \<times> Store" where
  "AgentFile_Write s now ino data offset =
     (case WriteData s ino offset data of
        Inl e \<Rightarrow> (Inl e, s)
      | Inr s1 \<Rightarrow>
          (case GetInode s1 ino of
             Inl e \<Rightarrow> (Inl e, s1)
           | Inr inode \<Rightarrow>
               (let newSize = u64 (u64 offset + int (length data)) in
                if newSize > Size inode
                then (case UpdateSize s1 now ino newSize of
                        Inl e \<Rightarrow> (Inl e, s1)
                      | Inr s2 \<Rightarrow> (Inr (length data), s2))
                else (Inr (length data), UpdateTimes s1 now ino None (Some now)))))"

subsection \<open>EnsureParentDirs and CopyFromBase\<close>

text \<open>
  The loop of \<open>EnsureParentDirs\<close> over \<open>i = 1, ..., len(parts) - 1\<close>: each proper prefix
  of the path is resolved and, when not found, created with mode 0o755.
\<close>

fun ensureLoop :: "AgentFS \<Rightarrow> int \<Rightarrow> string list \<Rightarrow> nat list \<Rightarrow> (error + unit) \<times> AgentFS" where
  "ensureLoop a now parts [] = (Inr (), a)"
| "ensureLoop a now parts (i # rest) =
     (let parentPath = joinPath (take i parts) in
      case resolvePath a parentPath of
        (Inr _, a1) \<Rightarrow> ensureLoop a1 now parts rest
      | (Inl e, a1) \<Rightarrow>
          if e = ErrNotFound then
            (case AgentFS_Mkdir a1 now parentPath 493 of
               (Inl e', a2) \<Rightarrow> if e' \<noteq> ErrExists then (Inl e', a2) else ensureLoop a2 now parts rest
             | (Inr _, a2) \<Rightarrow> ensureLoop a2 now parts rest)
          else (Inl e, a1))"

definition EnsureParentDirs :: "AgentFS \<Rightarrow> int \<Rightarrow> string \<Rightarrow> (error + unit) \<times> AgentFS" where
  "EnsureParentDirs a now path =
     (let parts = splitPath path in
      if length parts \<le> 1 then (Inr (), a)
      else ensureLoop a now parts [1..<length parts])"

section \<open>The base filesystem (HostFS in pkg/overlay)\<close>

text \<open>
  The host directory is a parameter: what \<open>os.Stat\<close>, \<open>os.Lstat\<close>, \<open>os.Readlink\<close> and
  reading a whole file return for a cleaned virtual path (the join with the root
  directory and \<open>fileInfoToStats\<close> are inside these functions). \<open>HostFS\<close> maps a
  not-exist error to \<open>ErrNotFound\<close> and returns every other host error as it is.
\<close>

datatype oserr = ENOENT | EACCES | ENOTDIR

record HostFS =
  osStat :: "string \<Rightarrow> oserr + Stats"
  osLstat :: "string \<Rightarrow> oserr + Stats"
  osReadlink :: "string \<Rightarrow> oserr + string"
  osReadFile :: "string \<Rightarrow> oserr + byte list"

definition hostPath :: "string \<Rightarrow> string" where
  "hostPath path = Clean (CHR ''/'' # path)"


definition HostFS_Lstat :: "HostFS \<Rightarrow> string \<Rightarrow> error + Stats" where
  "HostFS_Lstat h path =
     (case osLstat h (hostPath path) of
        Inl e \<Rightarrow> Inl (if e = ENOENT then ErrNotFound else OsError)
      | Inr st \<Rightarrow> Inr st)"

definition HostFS_Readlink :: "HostFS \<Rightarrow> string \<Rightarrow> error + string" where
  "HostFS_Readlink h path =
     (case osReadlink h (hostPath path) of
        Inl e \<Rightarrow> Inl (if e = ENOENT then ErrNotFound else OsError)
      | Inr t \<Rightarrow> Inr t)"

definition HostFS_ReadWhole :: "HostFS \<Rightarrow> string \<Rightarrow> int \<Rightarrow> error + byte list" where
  \<comment> \<open>\<open>Open(path, O_RDONLY)\<close>, then \<open>ReadAt\<close> into a buffer of \<open>size\<close> bytes at offset 0,
      which reports end-of-file as an error when the file is shorter\<close>
  "HostFS_ReadWhole h path sz =
     (case osReadFile h (hostPath path) of
        Inl e \<Rightarrow> Inl (if e = ENOENT then ErrNotFound else if e = EACCES then ErrNoAccess
                       else OsError)
      | Inr content \<Rightarrow>
          if sz < 0 then Inl Panic
          else if int (length content) < sz then Inl OsError
          else Inr (take (nat sz) content))"

text \<open>
  The three transactions of \<open>CopyFromBase\<close>. Each assigns \<open>ino\<close>, the number of the
  inode it creates, before the statements that can fail.
\<close>

definition copyRegularTx ::
  "Store \<Rightarrow> int \<Rightarrow> nat \<Rightarrow> string \<Rightarrow> Stats \<Rightarrow> byte list \<Rightarrow> error + (nat \<times> Store)" where
  "copyRegularTx s now parentIno name stats data =
     (case CreateInodeTx s now (stMode stats) (stUid stats) (stGid stats) of
        (ino, s1) \<Rightarrow>
          (case (if length data > 0 then writeDataTx s1 ino 0 data else Inr s1) of
             Inl e \<Rightarrow> Inl e
           | Inr s2 \<Rightarrow>
               (case CreateDentryTx (UpdateSizeTx s2 now ino (int (length data))) parentIno name ino of
                  Inl e \<Rightarrow> Inl e
                | Inr s3 \<Rightarrow> Inr (ino, s3))))"

definition copySymlinkTx ::
  "Store \<Rightarrow> int \<Rightarrow> nat \<Rightarrow> string \<Rightarrow> Stats \<Rightarrow> string \<Rightarrow> error + (nat \<times> Store)" where
  "copySymlinkTx s now parentIno name stats target =
     (case CreateInodeTx s now (stMode stats) (stUid stats) (stGid stats) of
        (ino, s1) \<Rightarrow>
          (case CreateSymlinkTx s1 ino target of
             Inl e \<Rightarrow> Inl e
           | Inr s2 \<Rightarrow>
               (case CreateDentryTx (UpdateSizeTx s2 now ino (int (length target))) parentIno name ino of
                  Inl e \<Rightarrow> Inl e
                | Inr s3 \<Rightarrow> Inr (ino, s3))))"

definition copyDirTx ::
  "Store \<Rightarrow> int \<Rightarrow> nat \<Rightarrow> string \<Rightarrow> Stats \<Rightarrow> error + (nat \<times> Store)" where
  "copyDirTx s now parentIno name stats =
     (case CreateInodeTx s now (stMode stats) (stUid stats) (stGid stats) of
        (ino, s1) \<Rightarrow>
          (case CreateDentryTx s1 parentIno name ino of
             Inl e \<Rightarrow> Inl e
           | Inr s2 \<Rightarrow> Inr (ino, IncrNlinkTx s2 now parentIno)))"

text \<open>
  What \<open>CopyFromBase\<close> returns after its transaction. The directory branch assigns
  the transaction's error to the function's \<open>err\<close>, and \<open>withIno\<close> is its result. The
  regular-file and symlink branches declare an \<open>err\<close> of their own, for \<open>Open\<close> and
  \<open>Readlink\<close>, and the transaction's error goes to that one: the function returns
  \<open>ino\<close> with a nil error whether the transaction was committed or rolled back
  (\<open>withInoOwnErr\<close>). After a rollback \<open>ino\<close> is the number of a row that is not in the
  table, since AUTOINCREMENT numbers a new row above every row of the table. The store
  of the model numbers it with \<open>nextIno\<close>, so the rolled-back number is returned where
  that number is free, as it is in every store built by the operations; where it is
  taken, the transaction's error is the result. A panic is not an error value and
  passes through.
\<close>

definition withIno :: "AgentFS \<Rightarrow> error + (nat \<times> Store) \<Rightarrow> (error + nat) \<times> AgentFS" where
  "withIno a r = (case r of Inl e \<Rightarrow> (Inl e, a) | Inr (ino, s') \<Rightarrow> (Inr ino, a\<lparr> store := s' \<rparr>))"

definition withInoOwnErr :: "AgentFS \<Rightarrow> error + (nat \<times> Store) \<Rightarrow> (error + nat) \<times> AgentFS" where
  "withInoOwnErr a r =
     (case r of
        Inr (ino, s') \<Rightarrow> (Inr ino, a\<lparr> store := s' \<rparr>)
      | Inl e \<Rightarrow>
          if e \<noteq> Panic \<and> fs_inode (store a) (nextIno (store a)) = None
          then (Inr (nextIno (store a)), a)
          else (Inl e, a))"

definition CopyFromBase :: "AgentFS \<Rightarrow> int \<Rightarrow> string \<Rightarrow> HostFS \<Rightarrow> (error + nat) \<times> AgentFS" where
  "CopyFromBase a now path base =
     (case HostFS_Lstat base path of
        Inl e \<Rightarrow> (Inl e, a)
      | Inr stats \<Rightarrow>
          (case EnsureParentDirs a now path of
             (Inl e, a1) \<Rightarrow> (Inl e, a1)
           | (Inr _, a1) \<Rightarrow>
               (case resolveParentAndName a1 path of
                  (Inl e, a2) \<Rightarrow> (Inl e, a2)
                | (Inr (parentIno, name), a2) \<Rightarrow>
                    if StatsIsRegular stats then
                      (case HostFS_ReadWhole base path (stSize stats) of
                         Inl e \<Rightarrow> (Inl e, a2)
                       | Inr data \<Rightarrow>
                           withInoOwnErr a2 (copyRegularTx (store a2) now parentIno name stats data))
                    else if StatsIsSymlink stats then
                      (case HostFS_Readlink base path of
                         Inl e \<Rightarrow> (Inl e, a2)
                       | Inr target \<Rightarrow>
                           withInoOwnErr a2 (copySymlinkTx (store a2) now parentIno name stats target))
                    else if StatsIsDir stats then
                      withIno a2 (copyDirTx (store a2) now parentIno name stats)
                    else (Inr 0, a2))))"

subsection \<open>Rename (Store.Rename, AgentFS.Rename)\<close>

text \<open>
  One transaction: look up the source; when the destination exists, refuse a non-empty
  directory, else delete its dentry, decrement its link count and delete its inode when
  the count is zero; delete the source dentry; insert the new one. The statements on the
  destination ignore their errors; the last two return theirs as they are.
\<close>

definition dropDentry :: "Store \<Rightarrow> nat \<Rightarrow> string \<Rightarrow> Store" where
  "dropDentry s parentIno name =
     s\<lparr> fs_dentry := filter (\<lambda>d. \<not> (ParentIno d = parentIno \<and> Name d = name)) (fs_dentry s) \<rparr>"

definition replaceTarget :: "Store \<Rightarrow> nat \<Rightarrow> string \<Rightarrow> error + Store" where
  "replaceTarget s newParentIno newName =
     (case Lookup s newParentIno newName of
        Inl _ \<Rightarrow> Inr s
      | Inr targetIno \<Rightarrow>
          (let targetMode = (case fs_inode s targetIno of None \<Rightarrow> 0 | Some i \<Rightarrow> Mode i) in
           if targetMode AND S_IFMT = S_IFDIR \<and> HasChildren s targetIno then Inl DbErrNotEmpty
           else
             (let s1 = dropDentry s newParentIno newName;
                  s2 = updateRow s1 targetIno (\<lambda>i. i\<lparr> Nlink := Nlink i - 1 \<rparr>)
              in case fs_inode s2 targetIno of
                   None \<Rightarrow> Inr s2
                 | Some i \<Rightarrow> if Nlink i = 0 then Inr (DeleteInodeTx s2 targetIno) else Inr s2)))"

definition Store_Rename :: "Store \<Rightarrow> nat \<Rightarrow> nat \<Rightarrow> string \<Rightarrow> string \<Rightarrow> error + Store" where
  "Store_Rename s oldParentIno newParentIno oldName newName =
     (case Lookup s oldParentIno oldName of
        Inl _ \<Rightarrow> Inl DbErrNotFound
      | Inr ino \<Rightarrow>
          (case replaceTarget s newParentIno newName of
             Inl e \<Rightarrow> Inl e
           | Inr s3 \<Rightarrow>
               (let s4 = dropDentry s3 oldParentIno oldName in
                if (\<exists>d \<in> set (fs_dentry s4). ParentIno d = newParentIno \<and> Name d = newName)
                   \<or> fs_inode s4 newParentIno = None \<or> fs_inode s4 ino = None
                then Inl SqlError
                else Inr (s4\<lparr> fs_dentry := fs_dentry s4 @ [Dentry newParentIno newName ino] \<rparr>))))"

definition AgentFS_Rename :: "AgentFS \<Rightarrow> string \<Rightarrow> string \<Rightarrow> (error + unit) \<times> AgentFS" where
  "AgentFS_Rename a oldpath newpath =
     (case resolveParentAndName a oldpath of
        (Inl e, a1) \<Rightarrow> (Inl e, a1)
      | (Inr (oldParentIno, oldName), a1) \<Rightarrow>
          (case resolveParentAndName a1 newpath of
             (Inl e, a2) \<Rightarrow> (Inl e, a2)
           | (Inr (newParentIno, newName), a2) \<Rightarrow>
               (case Store_Rename (store a2) oldParentIno newParentIno oldName newName of
                  Inl e \<Rightarrow> (Inl e, a2)
                | Inr s' \<Rightarrow>
                    (Inr (), invalidateCache (invalidateCache (a2\<lparr> store := s' \<rparr>)
                                                oldParentIno oldName) newParentIno newName))))"

section \<open>The overlay (pkg/overlay/overlayfs.go)\<close>

record OverlayFS =
  base :: HostFS
  delta :: AgentFS
  whiteout :: whiteoutNode

definition existsInDelta :: "OverlayFS \<Rightarrow> string \<Rightarrow> bool \<times> OverlayFS" where
  "existsInDelta ov path =
     (case AgentFS_Lstat (delta ov) path of
        (Inl _, d) \<Rightarrow> (False, ov\<lparr> delta := d \<rparr>)
      | (Inr _, d) \<Rightarrow> (True, ov\<lparr> delta := d \<rparr>))"

definition existsInBase :: "OverlayFS \<Rightarrow> string \<Rightarrow> bool" where
  "existsInBase ov path = (case HostFS_Lstat (base ov) path of Inl _ \<Rightarrow> False | Inr _ \<Rightarrow> True)"

definition applyOrigin :: "OverlayFS \<Rightarrow> Stats \<Rightarrow> error + Stats" where
  "applyOrigin ov stats =
     (let baseIno = GetOrigin (store (delta ov)) (stIno stats) in
      if baseIno \<noteq> 0 then Inr (stats\<lparr> stIno := baseIno \<rparr>) else Inr stats)"


definition Overlay_Lstat :: "OverlayFS \<Rightarrow> string \<Rightarrow> (error + Stats) \<times> OverlayFS" where
  "Overlay_Lstat ov path =
     (if HasWhiteoutAncestor (whiteout ov) path then (Inl ErrNotFound, ov)
      else
        (case AgentFS_Lstat (delta ov) path of
           (Inr stats, d) \<Rightarrow> (applyOrigin (ov\<lparr> delta := d \<rparr>) stats, ov\<lparr> delta := d \<rparr>)
         | (Inl _, d) \<Rightarrow> (HostFS_Lstat (base ov) path, ov\<lparr> delta := d \<rparr>)))"

definition addWhiteout :: "OverlayFS \<Rightarrow> string \<Rightarrow> OverlayFS" where
  \<comment> \<open>\<open>CreateWhiteout\<close> in the store, then \<open>Insert\<close> in the index\<close>
  "addWhiteout ov path =
     ov\<lparr> delta := (delta ov)\<lparr> store := CreateWhiteout (store (delta ov)) path \<rparr>,
         whiteout := Insert (whiteout ov) path \<rparr>"

definition Overlay_Rmdir :: "OverlayFS \<Rightarrow> int \<Rightarrow> string \<Rightarrow> (error + unit) \<times> OverlayFS" where
  "Overlay_Rmdir ov now path =
     (if HasWhiteoutAncestor (whiteout ov) path then (Inl ErrNotFound, ov)
      else
        (case existsInDelta ov path of
           (inDelta, ov1) \<Rightarrow>
             (let inBase = existsInBase ov1 path in
              if \<not> inDelta \<and> \<not> inBase then (Inl ErrNotFound, ov1)
              else
                (case (if inDelta then AgentFS_Rmdir (delta ov1) now path
                       else (Inr (), delta ov1)) of
                   (Inl e, d) \<Rightarrow> (Inl e, ov1\<lparr> delta := d \<rparr>)
                 | (Inr _, d) \<Rightarrow>
                     if inBase then (Inr (), addWhiteout (ov1\<lparr> delta := d \<rparr>) path)
                     else (Inr (), ov1\<lparr> delta := d \<rparr>)))))"

definition dropOrigin :: "AgentFS \<Rightarrow> string \<Rightarrow> AgentFS" where
  \<comment> \<open>\<open>if ino, err := GetIno(path); err == nil { DeleteOrigin(ino) }\<close>\<close>
  "dropOrigin a path =
     (case GetIno a path of
        (Inl _, a') \<Rightarrow> a'
      | (Inr ino, a') \<Rightarrow> a'\<lparr> store := DeleteOrigin (store a') ino \<rparr>)"

definition Overlay_Remove :: "OverlayFS \<Rightarrow> int \<Rightarrow> string \<Rightarrow> (error + unit) \<times> OverlayFS" where
  "Overlay_Remove ov now path =
     (if HasWhiteoutAncestor (whiteout ov) path then (Inl ErrNotFound, ov)
      else
        (case existsInDelta ov path of
           (inDelta, ov1) \<Rightarrow>
             (let inBase = existsInBase ov1 path in
              if \<not> inDelta \<and> \<not> inBase then (Inl ErrNotFound, ov1)
              else
                (case (if inDelta then AgentFS_Remove (dropOrigin (delta ov1) path) now path
                       else (Inr (), delta ov1)) of
                   (Inl e, d) \<Rightarrow> (Inl e, ov1\<lparr> delta := d \<rparr>)
                 | (Inr _, d) \<Rightarrow>
                     if inBase then (Inr (), addWhiteout (ov1\<lparr> delta := d \<rparr>) path)
                     else (Inr (), ov1\<lparr> delta := d \<rparr>)))))"



definition NewOverlayFS :: "HostFS \<Rightarrow> AgentFS \<Rightarrow> OverlayFS" where
  \<comment> \<open>\<open>LoadFromPaths\<close> inserts the store's whiteouts into a new trie\<close>
  "NewOverlayFS b d =
     \<lparr> base = b, delta = d,
       whiteout = foldl Insert NewWhiteoutCache (fs_whiteout (store d)) \<rparr>"

section \<open>The specification's reading of a read, and example hosts\<close>

text \<open>
  What the specification says a read returns, written from its words and not from
  \<open>ReadData\<close>: the byte at a position is the stored byte when the chunk holding the
  position exists and is long enough, and zero otherwise; a read returns the bytes of
  its range up to the end of the file.
\<close>

definition specByte :: "Store \<Rightarrow> nat \<Rightarrow> int \<Rightarrow> byte" where
  "specByte s ino pos =
     (case fs_data s (ino, pos div chunkSize s) of
        None \<Rightarrow> 0
      | Some d \<Rightarrow> if nat (pos mod chunkSize s) < length d then d ! nat (pos mod chunkSize s) else 0)"

definition specRead :: "Store \<Rightarrow> nat \<Rightarrow> int \<Rightarrow> int \<Rightarrow> byte list" where
  "specRead s ino offset len =
     (case fs_inode s ino of
        None \<Rightarrow> []
      | Some i \<Rightarrow> map (specByte s ino) [offset..min (offset + len) (Size i) - 1])"

text \<open>
  A host directory holding the directories \<open>/c\<close> and \<open>/c/d\<close> and the regular file
  \<open>/c/d/e\<close>, and nothing else.
\<close>

definition hostStats :: "nat \<Rightarrow> mode_t \<Rightarrow> int \<Rightarrow> Stats" where
  "hostStats ino mode sz =
     \<lparr> stIno = ino, stMode = mode, stNlink = 1, stUid = 1000, stGid = 1000, stSize = sz,
       stAtime = 0, stMtime = 0, stCtime = 0 \<rparr>"

definition hostCDE :: HostFS where
  "hostCDE =
     (let look = (\<lambda>p. if p = ''/'' then Inr (hostStats 100 16877 0)
                       else if p = ''/c'' then Inr (hostStats 101 16877 0)
                       else if p = ''/c/d'' then Inr (hostStats 102 16877 0)
                       else if p = ''/c/d/e'' then Inr (hostStats 103 33188 3)
                       else Inl ENOENT)
      in \<lparr> osStat = look, osLstat = look,
           osReadlink = (\<lambda>p. Inl ENOENT),
           osReadFile = (\<lambda>p. if p = ''/c/d/e'' then Inr [104, 105, 10] else Inl ENOENT) \<rparr>)"


definition emptyOverlay :: "HostFS \<Rightarrow> OverlayFS" where
  \<comment> \<open>a new store with a new delta over the given host\<close>
  "emptyOverlay h = NewOverlayFS h (NewAgentFS (initSchema 4096 0))"


section \<open>Notions used to state the properties\<close>




section \<open>Link counts of directories\<close>

text \<open>
  The number of entries of the directory \<open>d\<close> whose child is a directory, and the
  invariant on link counts as the code keeps it: the root counts 2 plus its child
  directories, every other directory 1 plus its child directories.
\<close>

definition isDirAt :: "Store \<Rightarrow> nat \<Rightarrow> bool" where
  "isDirAt s ino = (case fs_inode s ino of None \<Rightarrow> False | Some i \<Rightarrow> IsDir i)"

definition childDirs :: "Store \<Rightarrow> nat \<Rightarrow> nat" where
  "childDirs s d =
     length (filter (\<lambda>e. ParentIno e = d \<and> isDirAt s (DentryIno e)) (fs_dentry s))"

definition linkBase :: "nat \<Rightarrow> int" where
  "linkBase d = (if d = 1 then 2 else 1)"

definition nlinkInv :: "Store \<Rightarrow> bool" where
  "nlinkInv s =
     (\<forall>d i. fs_inode s d = Some i \<and> IsDir i \<longrightarrow> Nlink i = linkBase d + int (childDirs s d))"

text \<open>
  What the schema and the operations keep besides: a directory has at most one entry
  naming it, (parent, name) is unique, and inode numbers in use are below the next one,
  which is above the root's.
\<close>

definition dirUnique :: "Store \<Rightarrow> bool" where
  "dirUnique s =
     (\<forall>d. isDirAt s d \<longrightarrow> length (filter (\<lambda>e. DentryIno e = d) (fs_dentry s)) \<le> 1)"

definition keyUnique :: "Store \<Rightarrow> bool" where
  "keyUnique s = distinct (map (\<lambda>e. (ParentIno e, Name e)) (fs_dentry s))"

definition inoFresh :: "Store \<Rightarrow> bool" where
  "inoFresh s =
     (1 < nextIno s \<and>
      (\<forall>d. fs_inode s d \<noteq> None \<longrightarrow> d < nextIno s) \<and>
      (\<forall>e \<in> set (fs_dentry s). ParentIno e < nextIno s \<and> DentryIno e < nextIno s))"

definition storeInv :: "Store \<Rightarrow> bool" where
  "storeInv s = (nlinkInv s \<and> dirUnique s \<and> keyUnique s \<and> inoFresh s)"

text \<open>
  The delta operations of the claim, each at the time it runs. \<open>CopyUp\<close> carries the
  host directory it copies from.
\<close>

datatype deltaOp =
    OpMkdir string mode_t
  | OpRmdir string
  | OpCreate string mode_t
  | OpUnlink string
  | OpLink string string
  | OpCopyUp string HostFS

fun applyDeltaOp :: "AgentFS \<Rightarrow> int \<times> deltaOp \<Rightarrow> AgentFS" where
  "applyDeltaOp a (now, OpMkdir path mode) = snd (AgentFS_Mkdir a now path mode)"
| "applyDeltaOp a (now, OpRmdir path) = snd (AgentFS_Rmdir a now path)"
| "applyDeltaOp a (now, OpCreate path mode) = snd (AgentFS_Create a now path mode)"
| "applyDeltaOp a (now, OpUnlink path) = snd (AgentFS_Remove a now path)"
| "applyDeltaOp a (now, OpLink oldpath newpath) = snd (AgentFS_Link a now oldpath newpath)"
| "applyDeltaOp a (now, OpCopyUp path h) = snd (CopyFromBase a now path h)"

definition permOnly :: "int \<times> deltaOp \<Rightarrow> bool" where
  \<comment> \<open>a mode argument of \<open>Mkdir\<close> carries no file-type bits\<close>
  "permOnly x = (case snd x of OpMkdir _ mode \<Rightarrow> mode AND S_IFMT = 0 | _ \<Rightarrow> True)"

text \<open>
  The dentry cache holds only inode numbers the store has handed out, and the state
  after a list of operations on a new store.
\<close>

definition cacheFresh :: "AgentFS \<Rightarrow> bool" where
  "cacheFresh a = (\<forall>k c. cache a k = Some c \<longrightarrow> c < nextIno (store a))"

definition deltaRun :: "int \<Rightarrow> int \<Rightarrow> (int \<times> deltaOp) list \<Rightarrow> AgentFS" where
  "deltaRun cs t0 ops = foldl applyDeltaOp (NewAgentFS (initSchema cs t0)) ops"

text \<open>Two runs used as examples below.\<close>

definition linkOps :: "(int \<times> deltaOp) list" where
  "linkOps = [(1, OpMkdir ''/a'' 493), (2, OpMkdir ''/a/b'' 448), (3, OpCreate ''/a/f'' 420),
              (4, OpLink ''/a/f'' ''/g''), (5, OpUnlink ''/a/f''),
              (6, OpCopyUp ''/c/d/e'' hostCDE), (7, OpRmdir ''/a/b'')]"

definition renameOps :: "(int \<times> deltaOp) list" where
  "renameOps = [(1, OpMkdir ''/a'' 493), (2, OpMkdir ''/b'' 493), (3, OpMkdir ''/a/c'' 493)]"

section \<open>Facts about paths\<close>

lemma splitPath_root: "splitPath ''/'' = []"
  by (simp add: splitPath_def Clean_def joinPath_def)

lemma splitPath_a: "splitPath ''/a'' = [''a'']"
  by (simp add: splitPath_def Clean_def joinPath_def TrimPrefixSlash_def)

lemma splitPath_a_b: "splitPath ''/a/b'' = [''a'', ''b'']"
  by (simp add: splitPath_def Clean_def joinPath_def TrimPrefixSlash_def)

lemma splitPath_dotdot: "splitPath ''a//./x/../b/'' = [''a'', ''b'']"
  by (simp add: splitPath_def Clean_def joinPath_def TrimPrefixSlash_def)

section \<open>Facts about the trie\<close>

lemma exactAt_fresh: "exactAt (WhiteoutNode [] False) qs = False"
  by (cases qs) simp_all

lemma exactAt_insertLocked:
  "exactAt (insertLocked node ps) qs = (qs = ps \<or> exactAt node qs)"
proof (induction ps arbitrary: node qs)
  case Nil
  show ?case by (cases node; cases qs) simp_all
next
  case (Cons p ps)
  obtain ch w where node: "node = WhiteoutNode ch w" by (cases node)
  show ?case
  proof (cases qs)
    case Nil
    then show ?thesis by (simp add: node split: option.splits)
  next
    case (Cons q qs')
    then show ?thesis
      by (auto simp: node update_conv' Cons.IH exactAt_fresh split: option.splits)
  qed
qed

lemma exactAt_leaf:
  "children node = [] \<Longrightarrow> \<not> isWhiteout node \<Longrightarrow> exactAt node qs = False"
  by (cases qs) simp_all

lemma removeWalk_None: "removeWalk node ps = None \<Longrightarrow> \<not> exactAt node ps"
proof (induction ps arbitrary: node)
  case Nil
  then show ?case by (cases node) simp
next
  case (Cons p ps)
  obtain ch w where node: "node = WhiteoutNode ch w" by (cases node)
  from Cons.prems show ?case
    by (auto simp: node dest: Cons.IH split: option.splits if_splits prod.splits)
qed

lemma exactAt_removeWalk:
  "removeWalk node ps = Some (node', c) \<Longrightarrow>
   exactAt node' qs = (qs \<noteq> ps \<and> exactAt node qs)"
proof (induction ps arbitrary: node node' c qs)
  case Nil
  then show ?case by (cases node; cases qs) auto
next
  case (Cons p ps)
  obtain ch w where node: "node = WhiteoutNode ch w" by (cases node)
  from Cons.prems obtain child where child: "map_of ch p = Some child"
    by (auto simp: node split: option.splits)
  from Cons.prems child obtain child' cl where
    walk: "removeWalk child ps = Some (child', cl)"
    by (auto simp: node split: option.splits)
  have IH: "\<And>qs'. exactAt child' qs' = (qs' \<noteq> ps \<and> exactAt child qs')"
    using Cons.IH [OF walk] .
  show ?case
  proof (cases "cl \<and> children child' = [] \<and> \<not> isWhiteout child'")
    case True
    then have gone: "\<And>qs'. \<not> (qs' \<noteq> ps \<and> exactAt child qs')"
      using IH exactAt_leaf by blast
    from True Cons.prems child walk have n': "node' = WhiteoutNode (AList.delete p ch) w"
      by (simp add: node)
    show ?thesis
    proof (cases qs)
      case Nil
      then show ?thesis by (simp add: n' node)
    next
      case (Cons q qs')
      then show ?thesis
        using gone child by (auto simp: n' node delete_conv' split: option.splits)
    qed
  next
    case False
    with Cons.prems child walk have n': "node' = WhiteoutNode (AList.update p child' ch) w"
      by (auto simp: node split: if_splits)
    show ?thesis
    proof (cases qs)
      case Nil
      then show ?thesis by (simp add: n' node)
    next
      case (Cons q qs')
      then show ?thesis
        using IH child by (auto simp: n' node update_conv' split: option.splits)
    qed
  qed
qed

lemma exactAt_Insert:
  "exactAt (Insert root path) qs = (qs = splitPath path \<or> exactAt root qs)"
  by (simp add: Insert_def exactAt_insertLocked)

lemma exactAt_Remove:
  "splitPath path \<noteq> [] \<Longrightarrow>
   exactAt (Remove root path) qs = (qs \<noteq> splitPath path \<and> exactAt root qs)"
  by (cases "removeWalk root (splitPath path)")
     (auto simp: Remove_def Let_def exactAt_removeWalk dest: removeWalk_None)

lemma exactAt_Remove_root:
  "splitPath path = [] \<Longrightarrow> Remove root path = root"
  by (simp add: Remove_def)

section \<open>The whiteout index against the set of live whiteouts\<close>

lemma liveAfter_cong:
  "(qs \<in> S) = (qs \<in> S') \<Longrightarrow> (qs \<in> liveAfter S ops) = (qs \<in> liveAfter S' ops)"
proof (induction ops arbitrary: S S')
  case Nil
  then show ?case by simp
next
  case (Cons op ops)
  show ?case
  proof (cases op)
    case (OpInsert path)
    have "(qs \<in> insert (splitPath path) S) = (qs \<in> insert (splitPath path) S')"
      using Cons.prems by auto
    from Cons.IH [OF this] show ?thesis by (simp add: OpInsert)
  next
    case (OpRemove path)
    have "(qs \<in> S - {splitPath path}) = (qs \<in> S' - {splitPath path})"
      using Cons.prems by auto
    from Cons.IH [OF this] show ?thesis by (simp add: OpRemove)
  qed
qed

lemma exactAt_applyOps:
  "qs \<noteq> [] \<Longrightarrow> exactAt root qs = (qs \<in> S) \<Longrightarrow>
   exactAt (applyOps root ops) qs = (qs \<in> liveAfter S ops)"
proof (induction ops arbitrary: root S)
  case Nil
  then show ?case by (simp add: applyOps_def)
next
  case (Cons op ops)
  show ?case
  proof (cases op)
    case (OpInsert path)
    have "exactAt (Insert root path) qs = (qs \<in> insert (splitPath path) S)"
      using Cons.prems by (simp add: exactAt_Insert)
    from Cons.IH [OF Cons.prems(1) this] show ?thesis
      by (simp add: OpInsert applyOps_def)
  next
    case (OpRemove path)
    have "exactAt (Remove root path) qs = (qs \<in> S - {splitPath path})"
    proof (cases "splitPath path = []")
      case True
      then show ?thesis using Cons.prems by (auto simp: exactAt_Remove_root)
    next
      case False
      then show ?thesis using Cons.prems by (auto simp: exactAt_Remove)
    qed
    from Cons.IH [OF Cons.prems(1) this] show ?thesis
      by (simp add: OpRemove applyOps_def)
  qed
qed

text \<open>
  Claim C8, as amended. After any sequence of \<open>Insert\<close> and \<open>Remove\<close> calls on an
  empty cache, \<open>HasExactWhiteout p\<close> holds exactly when the normalised path \<open>p\<close> was
  inserted and not removed afterwards, for every path \<open>p\<close> other than the root. The
  pruning of \<open>Remove\<close> therefore never loses the whiteout of another path. The root
  is left out: \<open>Remove\<close> returns at once on a path with no segments, so a whiteout
  inserted at the root stays.
\<close>

theorem whiteout_index_equivalence:
  "splitPath p \<noteq> [] \<Longrightarrow>
   HasExactWhiteout (applyOps NewWhiteoutCache ops) p = (splitPath p \<in> liveAfter {} ops)"
  unfolding HasExactWhiteout_def
  by (rule exactAt_applyOps) (simp_all add: NewWhiteoutCache_def exactAt_fresh)

theorem whiteout_index_equivalence_witness:
  "splitPath ''/a'' \<noteq> [] \<and>
   HasExactWhiteout
     (applyOps NewWhiteoutCache [OpInsert ''/a/b'', OpInsert ''/a'', OpRemove ''/a/b'']) ''/a''"
  using whiteout_index_equivalence
    [of "''/a''" "[OpInsert ''/a/b'', OpInsert ''/a'', OpRemove ''/a/b'']"]
  by (simp add: splitPath_a splitPath_a_b)

text \<open>
  The claim as stated fails at the root: inserted, then removed, and still reported.
\<close>

theorem whiteout_root_counterexample:
  "HasExactWhiteout (applyOps NewWhiteoutCache [OpInsert ''/'', OpRemove ''/'']) ''/'' \<and>
   splitPath ''/'' \<notin> liveAfter {} [OpInsert ''/'', OpRemove ''/'']"
  by (simp add: HasExactWhiteout_def applyOps_def Insert_def Remove_def splitPath_root
      NewWhiteoutCache_def)


text \<open>
  The ancestor check is the covering relation: it returns true exactly when a whiteout
  sits at a non-empty prefix of the path, the path itself included.
\<close>

lemma ancestorAt_coveredBy: "ancestorAt node ps = coveredBy node ps"
proof (induction ps arbitrary: node)
  case Nil
  then show ?case by (simp add: coveredBy_def)
next
  case (Cons p ps)
  show ?case
  proof (cases "map_of (children node) p")
    case None
    then show ?thesis by (auto simp: coveredBy_def take_Cons split: nat.splits)
  next
    case (Some child)
    have "coveredBy node (p # ps) = (\<exists>m\<in>{0..length ps}. exactAt child (take m ps))"
      unfolding coveredBy_def
    proof
      assume "\<exists>n\<in>{1..length (p # ps)}. exactAt node (take n (p # ps))"
      then obtain n where n: "1 \<le> n" "n \<le> Suc (length ps)" "exactAt node (take n (p # ps))"
        by auto
      then obtain m where m: "n = Suc m" by (cases n) auto
      with n Some show "\<exists>m\<in>{0..length ps}. exactAt child (take m ps)"
        by (intro bexI [of _ m]) auto
    next
      assume "\<exists>m\<in>{0..length ps}. exactAt child (take m ps)"
      then obtain m where "m \<le> length ps" "exactAt child (take m ps)" by auto
      with Some show "\<exists>n\<in>{1..length (p # ps)}. exactAt node (take n (p # ps))"
        by (intro bexI [of _ "Suc m"]) auto
    qed
    also have "\<dots> = (isWhiteout child \<or> coveredBy child ps)"
      unfolding coveredBy_def
    proof
      assume "\<exists>m\<in>{0..length ps}. exactAt child (take m ps)"
      then obtain m where m: "m \<le> length ps" "exactAt child (take m ps)" by auto
      show "isWhiteout child \<or> (\<exists>n\<in>{1..length ps}. exactAt child (take n ps))"
      proof (cases m)
        case 0
        with m show ?thesis by simp
      next
        case (Suc k)
        with m show ?thesis by (intro disjI2 bexI [of _ m]) auto
      qed
    next
      assume "isWhiteout child \<or> (\<exists>n\<in>{1..length ps}. exactAt child (take n ps))"
      then show "\<exists>m\<in>{0..length ps}. exactAt child (take m ps)"
      proof
        assume "isWhiteout child"
        then show ?thesis by (intro bexI [of _ 0]) auto
      next
        assume "\<exists>n\<in>{1..length ps}. exactAt child (take n ps)"
        then show ?thesis by auto
      qed
    qed
    finally show ?thesis using Some Cons.IH [of child] by simp
  qed
qed

section \<open>Normalised paths\<close>

lemma splitSep_nonempty: "splitSep s \<noteq> []"
  by (induction s) (auto split: list.splits)












section \<open>Path resolution leaves the store alone; Mkdir\<close>

lemma resolveWalk_store: "store (snd (resolveWalk a ino parts)) = store a"
  by (induction a ino parts rule: resolveWalk.induct)
     (auto split: option.splits sum.splits)

lemma resolvePath_store: "resolvePath a path = (r, a') \<Longrightarrow> store a' = store a"
  using resolveWalk_store [of a 1 "splitPath path"] by (simp add: resolvePath_def)

lemma resolveParentAndName_store:
  "resolveParentAndName a path = (r, a') \<Longrightarrow> store a' = store a"
  by (auto simp: resolveParentAndName_def Let_def dest: resolvePath_store
      split: if_splits prod.splits sum.splits)

lemma perm_only_mask: "(mode :: mode_t) AND NOT 511 = 0 \<Longrightarrow> mode AND 511 = mode"
  by (metis and.right_neutral bit.conj_disj_distrib bit.disj_cancel_right or.right_neutral)

lemma mkdirTx_effect:
  assumes ok: "mkdirTx s now parentIno name mode = Inr s'"
      and fresh: "fs_inode s (nextIno s) = None"
  shows "map_option Mode (fs_inode s' (nextIno s)) = Some (S_IFDIR OR mode)"
    and "Dentry parentIno name (nextIno s) \<in> set (fs_dentry s')"
    and "fs_inode s parentIno = Some parent \<Longrightarrow>
         map_option Nlink (fs_inode s' parentIno) = Some (Nlink parent + 1)"
  using ok fresh
  by (auto simp: mkdirTx_def CreateInodeTx_def CreateDentryTx_def IncrNlinkTx_def updateRow_def
      Let_def split: if_splits option.splits)

lemma mkdir_failure_keeps_store:
  "AgentFS_Mkdir a now path mode = (Inl e, a') \<Longrightarrow> store a' = store a"
  by (auto simp: AgentFS_Mkdir_def withStore_def dest: resolveParentAndName_store
      split: prod.splits sum.splits)

text \<open>
  Claim C9, as amended. A successful \<open>Mkdir(path, mode)\<close> creates the inode with mode
  \<open>S_IFDIR | mode\<close>: the whole mode argument is stored, with no mask. This is
  \<open>S_IFDIR | (mode & 0777)\<close> when the argument has no bit outside the low nine. In
  the same transaction the dentry (parent, name) is inserted for the new inode and the
  parent's link count grows by one. The new inode number is the store's next one,
  assumed unused.
\<close>

theorem mkdir_mode_dentry_nlink:
  assumes ok: "AgentFS_Mkdir a now path mode = (Inr (), a')"
      and fresh: "fs_inode (store a) (nextIno (store a)) = None"
  shows "\<exists>parentIno name a1.
           resolveParentAndName a path = (Inr (parentIno, name), a1) \<and>
           map_option Mode (fs_inode (store a') (nextIno (store a))) = Some (S_IFDIR OR mode) \<and>
           (mode AND NOT 511 = 0 \<longrightarrow>
              map_option Mode (fs_inode (store a') (nextIno (store a)))
                = Some (S_IFDIR OR (mode AND 511))) \<and>
           Dentry parentIno name (nextIno (store a)) \<in> set (fs_dentry (store a')) \<and>
           (\<forall>parent. fs_inode (store a) parentIno = Some parent \<longrightarrow>
              map_option Nlink (fs_inode (store a') parentIno) = Some (Nlink parent + 1))"
proof -
  from ok obtain parentIno name a1 where
    res: "resolveParentAndName a path = (Inr (parentIno, name), a1)"
    by (auto simp: AgentFS_Mkdir_def split: prod.splits sum.splits)
  have st: "store a1 = store a" using res by (rule resolveParentAndName_store)
  from ok res obtain s' where
    tx: "mkdirTx (store a) now parentIno name mode = Inr s'" and a': "store a' = s'"
    by (auto simp: AgentFS_Mkdir_def withStore_def st split: sum.splits)
  note eff = mkdirTx_effect [OF tx fresh]
  show ?thesis
    using res eff by (auto simp: a' perm_only_mask)
qed

theorem mkdir_mode_dentry_nlink_witness:
  "\<exists>a'. AgentFS_Mkdir (NewAgentFS (initSchema 4096 0)) 7 ''/a'' 493 = (Inr (), a') \<and>
        map_option Mode (fs_inode (store a') 2) = Some (S_IFDIR OR (493 AND 511)) \<and>
        Dentry 1 ''a'' 2 \<in> set (fs_dentry (store a')) \<and>
        map_option Nlink (fs_inode (store a') 1) = Some 3"
proof -
  let ?a = "NewAgentFS (initSchema 4096 0)"
  obtain r a' where run: "AgentFS_Mkdir ?a 7 ''/a'' 493 = (r, a')" by (cases "AgentFS_Mkdir ?a 7 ''/a'' 493")
  have r: "fst (AgentFS_Mkdir ?a 7 ''/a'' 493) = Inr ()" by code_simp
  with run have ok: "AgentFS_Mkdir ?a 7 ''/a'' 493 = (Inr (), a')" by simp
  have fresh: "fs_inode (store ?a) (nextIno (store ?a)) = None"
    by (simp add: NewAgentFS_def initSchema_def)
  have res: "fst (resolveParentAndName ?a ''/a'') = Inr (1, ''a'')" by code_simp
  have nx: "nextIno (store ?a) = 2" by (simp add: NewAgentFS_def initSchema_def)
  have root: "fs_inode (store ?a) 1 \<noteq> None \<and> map_option Nlink (fs_inode (store ?a) 1) = Some 2"
    by (simp add: NewAgentFS_def initSchema_def)
  have perm: "(493 :: mode_t) AND NOT 511 = 0" by simp
  from mkdir_mode_dentry_nlink [OF ok fresh] res nx root perm ok show ?thesis
    by (auto simp: )
qed

text \<open>
  The claim as stated fails for a mode with the sticky bit, 0o1755: the inode gets
  0o41755, not 0o40755.
\<close>

theorem mkdir_mode_unmasked_counterexample:
  "fst (AgentFS_Mkdir (NewAgentFS (initSchema 4096 0)) 7 ''/a'' 1005) = Inr () \<and>
   map_option Mode
     (fs_inode (store (snd (AgentFS_Mkdir (NewAgentFS (initSchema 4096 0)) 7 ''/a'' 1005))) 2)
     = Some 17389 \<and>
   (17389 :: mode_t) \<noteq> S_IFDIR OR (1005 AND 511)"
  by code_simp

section \<open>Utimens\<close>

lemma UpdateTimes_fields:
  "fs_inode s ino = Some i \<Longrightarrow>
   fs_inode (UpdateTimes s now ino atime mtime) ino =
     Some (i\<lparr> Atime := (case atime of None \<Rightarrow> now | Some t \<Rightarrow> t),
              Mtime := (case mtime of None \<Rightarrow> now | Some t \<Rightarrow> t),
              Ctime := now \<rparr>)"
  by (simp add: UpdateTimes_def updateRow_def)

text \<open>
  Claim C7 at a failing input. A file is created at time 100, so its access time is 100.
  \<open>Utimens\<close> at time 500 with no access time and the modification time 300 stores the
  modification time 300 and the status-change time 500, as the claim says, but sets the
  access time to 500 where the claim keeps 100: \<open>UpdateTimes\<close> replaces an absent
  argument by the current time.
\<close>

theorem utimens_absent_atime_set_to_now:
  "(case AgentFS_Create (NewAgentFS (initSchema 4096 100)) 100 ''/f'' 420 of
      (_, a1) \<Rightarrow>
        (case AgentFS_Utimens a1 500 ''/f'' None (Some 300) of
           (r, a2) \<Rightarrow>
             r = Inr () \<and>
             map_option Atime (fs_inode (store a1) 2) = Some 100 \<and>
             map_option Atime (fs_inode (store a2) 2) = Some 500 \<and>
             map_option Mtime (fs_inode (store a2) 2) = Some 300 \<and>
             map_option Ctime (fs_inode (store a2) 2) = Some 500))"
  by code_simp
section \<open>Resolution with a coherent cache\<close>








lemma updateRow_dentry: "fs_dentry (updateRow s ino f) = fs_dentry s"
  by (simp add: updateRow_def split: option.splits)





section \<open>Reading chunks with gaps\<close>

text \<open>
  Claim C3 at a failing input. With a chunk size of 4, a new file gets the two bytes
  "ab" written at offset 8: the file's size is 10, chunk 2 holds "ab" and chunks 0 and 1
  are absent. The claim's read of the range [0, 10) is eight zeros followed by "ab";
  \<open>ReadData\<close> returns "ab" alone, since it appends the stored chunks and nothing for the
  absent ones. The read of [6, 10), inside the file, likewise returns "ab" and not two
  zeros followed by "ab".
\<close>

theorem read_gap_not_zero_filled:
  "(case AgentFS_Create (NewAgentFS (initSchema 4 0)) 0 ''/f'' 420 of
      (_, a1) \<Rightarrow>
        (case AgentFile_Write (store a1) 0 2 [97, 98] 8 of
           (w, s2) \<Rightarrow>
             w = Inr 2 \<and> map_option Size (fs_inode s2 2) = Some 10 \<and>
             ReadData s2 2 0 10 = Inr [97, 98] \<and>
             specRead s2 2 0 10 = [0, 0, 0, 0, 0, 0, 0, 0, 97, 98] \<and>
             ReadData s2 2 6 4 = Inr [97, 98] \<and>
             specRead s2 2 6 4 = [0, 0, 97, 98]))"
  by code_simp

section \<open>Lstat in the merged view\<close>

lemma exactAt_coveredBy: "ps \<noteq> [] \<Longrightarrow> exactAt node ps \<Longrightarrow> coveredBy node (ps @ rest)"
  unfolding coveredBy_def by (rule bexI [of _ "length ps"]) (auto simp: Suc_le_eq)






section \<open>Removing paths of the base\<close>

lemma AgentFS_Lstat_store: "AgentFS_Lstat a p = (r, a') \<Longrightarrow> store a' = store a"
  by (auto simp: AgentFS_Lstat_def dest: resolvePath_store split: prod.splits sum.splits)

lemma existsInDelta_frame:
  "existsInDelta ov p = (b, ov1) \<Longrightarrow>
   base ov1 = base ov \<and> whiteout ov1 = whiteout ov \<and> store (delta ov1) = store (delta ov)"
  by (auto simp: existsInDelta_def dest: AgentFS_Lstat_store split: prod.splits sum.splits)

lemma root_inDelta:
  assumes "fs_inode (store (delta ov)) 1 \<noteq> None" "splitPath p = []"
  shows "fst (existsInDelta ov p)"
  using assms
  by (auto simp: existsInDelta_def AgentFS_Lstat_def resolvePath_def GetInode_def
      split: prod.splits sum.splits option.splits)

lemma CreateWhiteout_member: "normalizePath path \<in> set (fs_whiteout (CreateWhiteout s path))"
  by (simp add: CreateWhiteout_def Let_def)

text \<open>
  Claim C10, as amended. For a path that is a directory in the base, is not present in
  the delta and is not covered by a whiteout, \<open>Remove\<close> succeeds: it records the
  whiteout in the store and in the index, where it covers the path and every path below
  it. \<open>Remove\<close> fails with is-directory only for a path present in the delta. The root
  inode exists in the delta.
\<close>

theorem remove_base_directory_whiteout:
  assumes vis: "\<not> HasWhiteoutAncestor (whiteout ov) path"
      and nd: "\<not> fst (existsInDelta ov path)"
      and bs: "HostFS_Lstat (base ov) path = Inr st"
      and dir: "StatsIsDir st"
      and root: "fs_inode (store (delta ov)) 1 \<noteq> None"
  shows "fst (Overlay_Remove ov now path) = Inr () \<and>
         HasExactWhiteout (whiteout (snd (Overlay_Remove ov now path))) path \<and>
         (\<forall>q rest. splitPath q = splitPath path @ rest \<longrightarrow>
            HasWhiteoutAncestor (whiteout (snd (Overlay_Remove ov now path))) q) \<and>
         normalizePath path \<in> set (fs_whiteout (store (delta (snd (Overlay_Remove ov now path))))) \<and>
         (\<forall>ov' path'. fst (Overlay_Remove ov' now path') = Inl ErrIsDir \<longrightarrow>
            fst (existsInDelta ov' path'))"
proof -
  obtain ov1 where e: "existsInDelta ov path = (False, ov1)"
    using nd by (cases "existsInDelta ov path") auto
  note fr = existsInDelta_frame [OF e]
  have inBase: "existsInBase ov1 path" using bs fr by (simp add: existsInBase_def)
  have run: "Overlay_Remove ov now path = (Inr (), addWhiteout ov1 path)"
    using vis e inBase by (simp add: Overlay_Remove_def Let_def)
  have nonroot: "splitPath path \<noteq> []" using root_inDelta [OF root] nd by blast
  have ex: "exactAt (whiteout (addWhiteout ov1 path)) (splitPath path)"
    by (simp add: addWhiteout_def exactAt_Insert)
  have cov: "\<And>q rest. splitPath q = splitPath path @ rest \<Longrightarrow>
               HasWhiteoutAncestor (whiteout (addWhiteout ov1 path)) q"
    using exactAt_coveredBy [OF nonroot ex]
    by (simp add: HasWhiteoutAncestor_def ancestorAt_coveredBy)
  have tab: "normalizePath path \<in> set (fs_whiteout (store (delta (addWhiteout ov1 path))))"
    by (simp add: addWhiteout_def CreateWhiteout_member)
  have isdir: "\<And>ov' path'. fst (Overlay_Remove ov' now path') = Inl ErrIsDir \<Longrightarrow>
                 fst (existsInDelta ov' path')"
    by (auto simp: Overlay_Remove_def Let_def split: if_splits prod.splits sum.splits)
  show ?thesis
    using run ex cov tab isdir by (simp add: HasExactWhiteout_def)
qed

theorem remove_base_directory_whiteout_witness:
  "fst (Overlay_Remove (emptyOverlay hostCDE) 0 ''/c/d'') = Inr () \<and>
   HasExactWhiteout (whiteout (snd (Overlay_Remove (emptyOverlay hostCDE) 0 ''/c/d''))) ''/c/d'' \<and>
   HasWhiteoutAncestor (whiteout (snd (Overlay_Remove (emptyOverlay hostCDE) 0 ''/c/d''))) ''/c/d/e''"
proof -
  let ?ov = "emptyOverlay hostCDE"
  have vis: "\<not> HasWhiteoutAncestor (whiteout ?ov) ''/c/d''" by code_simp
  have nd: "\<not> fst (existsInDelta ?ov ''/c/d'')" by code_simp
  have bs: "HostFS_Lstat (base ?ov) ''/c/d'' = Inr (hostStats 102 16877 0)" by code_simp
  have dir: "StatsIsDir (hostStats 102 16877 0)" by code_simp
  have root: "fs_inode (store (delta ?ov)) 1 \<noteq> None" by code_simp
  have sp: "splitPath ''/c/d/e'' = splitPath ''/c/d'' @ [''e'']" by code_simp
  from remove_base_directory_whiteout [OF vis nd bs dir root, of 0] sp show ?thesis
    by blast
qed

text \<open>
  The claim as stated fails for a base directory that is already whited out: a second
  \<open>Remove\<close> of the same path returns not-found.
\<close>

theorem remove_whited_out_directory_counterexample:
  "HostFS_Lstat (base (snd (Overlay_Remove (emptyOverlay hostCDE) 0 ''/c/d''))) ''/c/d''
     = Inr (hostStats 102 16877 0) \<and>
   StatsIsDir (hostStats 102 16877 0) \<and>
   \<not> fst (existsInDelta (snd (Overlay_Remove (emptyOverlay hostCDE) 0 ''/c/d'')) ''/c/d'') \<and>
   fst (Overlay_Remove (snd (Overlay_Remove (emptyOverlay hostCDE) 0 ''/c/d'')) 1 ''/c/d'')
     = Inl ErrNotFound"
  by code_simp

text \<open>
  Claim C5 at a failing input. The base holds \<open>/c/d/e\<close> and the delta is empty, so
  \<open>/c/d/e\<close> is visible in the merged view. \<open>Rmdir\<close> of \<open>/c/d\<close> does not fail with
  not-empty: it succeeds and whites the directory out, and the child is gone with it.
\<close>

theorem rmdir_base_only_nonempty_succeeds:
  "(case Overlay_Rmdir (emptyOverlay hostCDE) 0 ''/c/d'' of
      (r, ov') \<Rightarrow>
        fst (Overlay_Lstat (emptyOverlay hostCDE) ''/c/d/e'')
          = Inr (hostStats 103 33188 3) \<and>
        r = Inr () \<and>
        HasExactWhiteout (whiteout ov') ''/c/d'' \<and>
        fst (Overlay_Lstat ov' ''/c/d/e'') = Inl ErrNotFound)"
  by code_simp
section \<open>Writing and reading chunks\<close>

lemma quot_nonneg: "0 \<le> a \<Longrightarrow> 0 < b \<Longrightarrow> quot a b = a div b"
  by (cases "a = 0") (simp_all add: quot_def)

lemma le_div_int: 
  assumes "0 < (c::int)" shows "(k \<le> x div c) = (k * c \<le> x)"
proof
  assume "k \<le> x div c"
  then have "k * c \<le> (x div c) * c" using assms by (simp add: mult_right_mono)
  also have "\<dots> = x - x mod c" by (simp add: minus_mod_eq_div_mult)
  also have "\<dots> \<le> x" using assms by simp
  finally show "k * c \<le> x" .
next
  assume "k * c \<le> x"
  then have "(k * c) div c \<le> x div c" using assms by (rule zdiv_mono1)
  then show "k \<le> x div c" using assms by simp
qed

lemma div_less_int: "0 < (c::int) \<Longrightarrow> (x div c < k) = (x < k * c)"
  using le_div_int [of c k x] by auto

lemma splice_length:
  "a + n \<le> length xs \<Longrightarrow> length ys = n \<Longrightarrow>
   length (take a xs @ ys @ drop (a + n) xs) = length xs"
  by simp

lemma splice_middle:
  "a + n \<le> length xs \<Longrightarrow> length ys = n \<Longrightarrow>
   take n (drop a (take a xs @ ys @ drop (a + n) xs)) = ys"
  by (simp add: min_def)

lemma subslice_length:
  "0 \<le> lo \<Longrightarrow> lo \<le> hi \<Longrightarrow> hi \<le> int (length xs) \<Longrightarrow> length (subslice xs lo hi) = nat (hi - lo)"
  by (auto simp: subslice_def)

lemma subslice_drop_rest:
  assumes "0 \<le> lo" "lo \<le> hi"
  shows "subslice xs lo hi @ drop (nat hi) xs = drop (nat lo) xs"
proof -
  have "nat hi = nat (hi - lo) + nat lo" using assms by simp
  then have "drop (nat hi) xs = drop (nat (hi - lo)) (drop (nat lo) xs)"
    by (simp only: drop_drop)
  then show ?thesis
    unfolding subslice_def by (simp only: append_take_drop_id)
qed

lemma subslice_to_end:
  "0 \<le> lo \<Longrightarrow> subslice xs lo (int (length xs)) = drop (nat lo) xs"
  by (simp add: subslice_def)

lemma pos_facts:
  assumes cs: "0 < cs" and off: "0 \<le> offset" and L: "0 < L"
      and lo: "offset div cs \<le> k" and hi: "k \<le> (offset + L - 1) div cs"
  shows "0 \<le> wStart cs offset k" "wStart cs offset k < cs"
        "0 \<le> dStart cs offset k" "dStart cs offset k < L"
        "0 < wLen cs offset L k"
        "wStart cs offset k + wLen cs offset L k \<le> cs"
        "dStart cs offset k + wLen cs offset L k \<le> L"
        "k < (offset + L - 1) div cs \<Longrightarrow>
           wLen cs offset L k = cs - wStart cs offset k \<and>
           dStart cs offset (k + 1) = dStart cs offset k + wLen cs offset L k \<and>
           dStart cs offset k + wLen cs offset L k < L"
        "k = (offset + L - 1) div cs \<Longrightarrow> wLen cs offset L k = L - dStart cs offset k"
proof -
  have a: "offset < (k + 1) * cs" using lo div_less_int [OF cs, of offset "k + 1"] by simp
  have b: "k * cs \<le> offset + L - 1" using hi le_div_int [OF cs, of k "offset + L - 1"] by simp
  have e: "(k + 1) * cs = k * cs + cs" by (simp add: algebra_simps)
  show "0 \<le> wStart cs offset k" by (simp add: wStart_def)
  show "wStart cs offset k < cs" using a e cs by (simp add: wStart_def)
  show "0 \<le> dStart cs offset k" by (simp add: dStart_def)
  show "dStart cs offset k < L" using b L by (simp add: dStart_def)
  show "0 < wLen cs offset L k" using a b e cs L by (auto simp: wLen_def wStart_def dStart_def)
  show "wStart cs offset k + wLen cs offset L k \<le> cs"
    using a b e cs L by (auto simp: wLen_def wStart_def dStart_def)
  show "dStart cs offset k + wLen cs offset L k \<le> L"
    using a b e cs L by (auto simp: wLen_def wStart_def dStart_def)
  {
    assume lt: "k < (offset + L - 1) div cs"
    then have "k + 1 \<le> (offset + L - 1) div cs" by simp
    then have c: "(k + 1) * cs \<le> offset + L - 1"
      using le_div_int [OF cs, of "k + 1" "offset + L - 1"] by simp
    show "wLen cs offset L k = cs - wStart cs offset k \<and>
          dStart cs offset (k + 1) = dStart cs offset k + wLen cs offset L k \<and>
          dStart cs offset k + wLen cs offset L k < L"
      using a c e cs L by (auto simp: wLen_def wStart_def dStart_def)
  }
  {
    assume eq: "k = (offset + L - 1) div cs"
    then have "(offset + L - 1) div cs < k + 1" by simp
    then have c: "offset + L - 1 < (k + 1) * cs"
      using div_less_int [OF cs, of "offset + L - 1" "k + 1"] by simp
    show "wLen cs offset L k = L - dStart cs offset k"
      using a c e cs L by (auto simp: wLen_def wStart_def dStart_def)
  }
qed

lemma writeChunk_spec:
  assumes ino: "fs_inode s ino = Some i"
      and cs: "0 < chunkSize s"
      and ws: "0 \<le> wStart (chunkSize s) offset k"
      and wl: "0 < wLen (chunkSize s) offset (int (length b)) k"
      and fit: "wStart (chunkSize s) offset k + wLen (chunkSize s) offset (int (length b)) k
                  \<le> chunkSize s"
      and d0: "0 \<le> dStart (chunkSize s) offset k"
      and dfit: "dStart (chunkSize s) offset k + wLen (chunkSize s) offset (int (length b)) k
                  \<le> int (length b)"
      and inv: "chunksBounded s ino"
  shows "\<exists>d'. writeChunk s ino offset b k (dStart (chunkSize s) offset k) =
                Inr (dStart (chunkSize s) offset k + wLen (chunkSize s) offset (int (length b)) k,
                     s\<lparr> fs_data := (fs_data s)((ino, k) \<mapsto> d') \<rparr>) \<and>
              wStart (chunkSize s) offset k + wLen (chunkSize s) offset (int (length b)) k
                \<le> int (length d') \<and>
              int (length d') \<le> chunkSize s \<and>
              subslice d' (wStart (chunkSize s) offset k)
                (wStart (chunkSize s) offset k + wLen (chunkSize s) offset (int (length b)) k)
              = subslice b (dStart (chunkSize s) offset k)
                  (dStart (chunkSize s) offset k + wLen (chunkSize s) offset (int (length b)) k)"
proof -
  define csz where "csz = chunkSize s"
  define w where "w = wStart csz offset k"
  define n where "n = wLen csz offset (int (length b)) k"
  define p where "p = dStart csz offset k"
  define existing where
    "existing = (if w > 0 \<or> n < csz
                 then (case fs_data s (ino, k) of None \<Rightarrow> [] | Some d \<Rightarrow> d) else [])"
  define nc where "nc = widenChunk existing (w + n)"
  define d' where "d' = copyInto nc w (subslice b p (p + n))"
  have exb: "int (length existing) \<le> csz"
    using inv cs by (auto simp: existing_def chunksBounded_def csz_def split: option.splits)
  have w0: "0 \<le> w" and n0: "0 < n" and wn: "w + n \<le> csz" and p0: "0 \<le> p"
    and pn: "p + n \<le> int (length b)"
    using ws wl fit d0 dfit by (simp_all add: w_def n_def p_def csz_def)
  have nclo: "w + n \<le> int (length nc)" using w0 n0 by (auto simp: nc_def widenChunk_def)
  have nchi: "int (length nc) \<le> csz" using exb wn w0 n0 by (auto simp: nc_def widenChunk_def)
  have sl: "length (subslice b p (p + n)) = nat n"
    using subslice_length [of p "p + n" b] p0 n0 pn by simp
  have le: "nat w + nat n \<le> length nc" using nclo w0 n0 by linarith
  have fits: "take (length nc - nat w) (subslice b p (p + n)) = subslice b p (p + n)"
    using le sl by simp
  have d'eq: "d' = take (nat w) nc @ subslice b p (p + n) @ drop (nat w + nat n) nc"
    unfolding d'_def copyInto_def fits sl ..
  have len: "length d' = length nc"
    unfolding d'eq using splice_length [OF le sl] .
  have mid: "subslice d' w (w + n) = subslice b p (p + n)"
    using splice_middle [OF le sl] by (simp add: d'eq subslice_def)
  have run: "writeChunk s ino offset b k p = Inr (p + n, s\<lparr> fs_data := (fs_data s)((ino, k) \<mapsto> d') \<rparr>)"
    unfolding writeChunk_def Let_def d'_def nc_def existing_def w_def n_def p_def csz_def
      wStart_def wLen_def dStart_def
    using ino by simp
  show ?thesis
    using run nclo nchi len mid
    unfolding w_def n_def p_def csz_def by (intro exI [of _ d']) simp
qed

lemma chunksBounded_upd:
  "chunksBounded s ino \<Longrightarrow> int (length d) \<le> chunkSize s \<Longrightarrow>
   chunksBounded (s\<lparr> fs_data := (fs_data s)((ino, k) \<mapsto> d) \<rparr>) ino"
  by (auto simp: chunksBounded_def)

lemma writeLoop_spec:
  fixes cs offset :: int and b :: "byte list"
  assumes cs: "0 < cs" and off: "0 \<le> offset" and L: "0 < int (length b)"
      and e: "e = (offset + int (length b) - 1) div cs"
  shows "n = nat (e + 1 - c) \<Longrightarrow> c \<le> e \<Longrightarrow> offset div cs \<le> c \<Longrightarrow>
         chunkSize s = cs \<Longrightarrow> fs_inode s ino = Some i \<Longrightarrow> chunksBounded s ino \<Longrightarrow>
         \<exists>s'. writeLoop s ino offset b [c..e] (dStart cs offset c) = Inr s' \<and>
              chunkSize s' = cs \<and> fs_inode s' = fs_inode s \<and> chunksBounded s' ino \<and>
              (\<forall>k. k < c \<longrightarrow> fs_data s' (ino, k) = fs_data s (ino, k)) \<and>
              (\<forall>k. c \<le> k \<and> k \<le> e \<longrightarrow>
                 (\<exists>d. fs_data s' (ino, k) = Some d \<and> chunkHolds cs offset b d k))"
proof (induction n arbitrary: c s)
  case 0
  then show ?case by simp
next
  case (Suc m)
  have hi: "c \<le> (offset + int (length b) - 1) div cs" using Suc.prems(2) e by simp
  note pf = pos_facts [OF cs off L Suc.prems(3) hi]
  have csz: "0 < chunkSize s" using cs Suc.prems(4) by simp
  from writeChunk_spec [of s ino i offset c b] Suc.prems(4,5,6) csz pf(1,5,6,3,7)
  obtain d' where
    wr: "writeChunk s ino offset b c (dStart cs offset c) =
           Inr (dStart cs offset c + wLen cs offset (int (length b)) c,
                s\<lparr> fs_data := (fs_data s)((ino, c) \<mapsto> d') \<rparr>)"
    and hold: "chunkHolds cs offset b d' c"
    by (auto simp: chunkHolds_def)
  let ?s1 = "s\<lparr> fs_data := (fs_data s)((ino, c) \<mapsto> d') \<rparr>"
  have list: "[c..e] = c # [c + 1..e]" using Suc.prems(2) by (rule upto_rec1)
  have b1: "chunksBounded ?s1 ino"
    using chunksBounded_upd [OF Suc.prems(6)] hold Suc.prems(4) by (simp add: chunkHolds_def)
  show ?case
  proof (cases "c < e")
    case True
    then have lt: "c < (offset + int (length b) - 1) div cs" using e by simp
    have next_d: "dStart cs offset (c + 1) = dStart cs offset c + wLen cs offset (int (length b)) c"
      using pf(8) [OF lt] by simp
    have m: "m = nat (e + 1 - (c + 1))" using Suc.prems(1) by simp
    have "c + 1 \<le> e" using True by simp
    moreover have "offset div cs \<le> c + 1" using Suc.prems(3) by simp
    moreover have "chunkSize ?s1 = cs" using Suc.prems(4) by simp
    moreover have "fs_inode ?s1 ino = Some i" using Suc.prems(5) by simp
    ultimately obtain s' where
      run: "writeLoop ?s1 ino offset b [c + 1..e] (dStart cs offset (c + 1)) = Inr s'"
      and keep: "chunkSize s' = cs" "fs_inode s' = fs_inode ?s1" "chunksBounded s' ino"
      and below: "\<forall>k. k < c + 1 \<longrightarrow> fs_data s' (ino, k) = fs_data ?s1 (ino, k)"
      and above: "\<forall>k. c + 1 \<le> k \<and> k \<le> e \<longrightarrow>
                    (\<exists>d. fs_data s' (ino, k) = Some d \<and> chunkHolds cs offset b d k)"
      using Suc.IH [OF m _ _ _ _ b1] by blast
    have whole: "writeLoop s ino offset b [c..e] (dStart cs offset c) = Inr s'"
      using wr run next_d by (simp add: list)
    have atc: "fs_data s' (ino, c) = Some d'" using below by simp
    have lower: "\<forall>k. k < c \<longrightarrow> fs_data s' (ino, k) = fs_data s (ino, k)"
      using below by simp
    have all: "\<forall>k. c \<le> k \<and> k \<le> e \<longrightarrow>
                 (\<exists>d. fs_data s' (ino, k) = Some d \<and> chunkHolds cs offset b d k)"
    proof (intro allI impI)
      fix k assume k: "c \<le> k \<and> k \<le> e"
      show "\<exists>d. fs_data s' (ino, k) = Some d \<and> chunkHolds cs offset b d k"
      proof (cases "k = c")
        case True
        then show ?thesis using atc hold by simp
      next
        case False
        then have "c + 1 \<le> k \<and> k \<le> e" using k by simp
        then show ?thesis using above by blast
      qed
    qed
    show ?thesis using whole keep lower all by (intro exI [of _ s']) simp
  next
    case False
    then have ce: "c = e" using Suc.prems(2) by simp
    have empty: "[c + 1..e] = []" using ce by simp
    have whole: "writeLoop s ino offset b [c..e] (dStart cs offset c) = Inr ?s1"
      using wr by (simp add: list empty)
    have all: "\<forall>k. c \<le> k \<and> k \<le> e \<longrightarrow>
                 (\<exists>d. fs_data ?s1 (ino, k) = Some d \<and> chunkHolds cs offset b d k)"
      using ce hold by auto
    show ?thesis using whole all Suc.prems(4) b1 by (intro exI [of _ ?s1]) simp
  qed
qed

lemma readLoop_step:
  assumes "br < L"
      and "re = (if int (length D) - wStart cs offset c > L - br
                 then wStart cs offset c + (L - br) else int (length D))"
      and "wStart cs offset c < int (length D)" "wStart cs offset c < re"
      and "re \<le> int (length D)"
  shows "readLoop cs offset L ((c, D) # rows) result br =
         readLoop cs offset L rows (result @ subslice D (wStart cs offset c) re)
           (br + (re - wStart cs offset c))"
  using assms by (simp add: Let_def wStart_def)

lemma readLoop_spec:
  fixes cs offset :: int and b :: "byte list"
  assumes cs: "0 < cs" and off: "0 \<le> offset" and L: "0 < int (length b)"
      and e: "e = (offset + int (length b) - 1) div cs"
  shows "n = nat (e + 1 - c) \<Longrightarrow> c \<le> e \<Longrightarrow> offset div cs \<le> c \<Longrightarrow>
         (\<forall>k. c \<le> k \<and> k \<le> e \<longrightarrow> chunkHolds cs offset b (D k) k) \<Longrightarrow>
         readLoop cs offset (int (length b)) (map (\<lambda>k. (k, D k)) [c..e]) result
           (dStart cs offset c)
         = result @ drop (nat (dStart cs offset c)) b"
proof (induction n arbitrary: c result)
  case 0
  then show ?case by simp
next
  case (Suc m)
  let ?L = "int (length b)"
  let ?w = "wStart cs offset c" and ?p = "dStart cs offset c" and ?n = "wLen cs offset ?L c"
  have hi: "c \<le> (offset + ?L - 1) div cs" using Suc.prems(2) e by simp
  note pf = pos_facts [OF cs off L Suc.prems(3) hi]
  have hold: "chunkHolds cs offset b (D c) c" using Suc.prems(2,4) by simp
  then have lo_len: "?w + ?n \<le> int (length (D c))" and hi_len: "int (length (D c)) \<le> cs"
    and same: "subslice (D c) ?w (?w + ?n) = subslice b ?p (?p + ?n)"
    by (simp_all add: chunkHolds_def)
  have list: "[c..e] = c # [c + 1..e]" using Suc.prems(2) by (rule upto_rec1)
  show ?case
  proof (cases "c < e")
    case True
    then have lt: "c < (offset + ?L - 1) div cs" using e by simp
    note nx = pf(8) [OF lt]
    have len: "int (length (D c)) = cs" using lo_len hi_len nx by simp
    have re: "cs = (if int (length (D c)) - ?w > ?L - ?p then ?w + (?L - ?p)
                    else int (length (D c)))"
      using len nx by simp
    have step: "readLoop cs offset ?L ((c, D c) # map (\<lambda>k. (k, D k)) [c + 1..e]) result ?p =
                readLoop cs offset ?L (map (\<lambda>k. (k, D k)) [c + 1..e])
                  (result @ subslice (D c) ?w cs) (?p + (cs - ?w))"
      using readLoop_step [OF pf(4) re] pf(2) len by simp
    have m: "m = nat (e + 1 - (c + 1))" using Suc.prems(1) by simp
    have c1: "c + 1 \<le> e" using True by simp
    have lo1: "offset div cs \<le> c + 1" using Suc.prems(3) by simp
    have rest: "\<forall>k. c + 1 \<le> k \<and> k \<le> e \<longrightarrow> chunkHolds cs offset b (D k) k"
      using Suc.prems(4) by simp
    have ih: "readLoop cs offset ?L (map (\<lambda>k. (k, D k)) [c + 1..e])
                (result @ subslice (D c) ?w cs) (dStart cs offset (c + 1))
              = (result @ subslice (D c) ?w cs) @ drop (nat (dStart cs offset (c + 1))) b"
      using Suc.IH [OF m c1 lo1 rest] .
    have wn: "?w + ?n = cs" using nx by simp
    have pn: "?p + (cs - ?w) = dStart cs offset (c + 1)" using nx by simp
    have sub: "subslice (D c) ?w cs = subslice b ?p (?p + ?n)" using same wn by simp
    have glue: "subslice b ?p (?p + ?n) @ drop (nat (?p + ?n)) b = drop (nat ?p) b"
      using subslice_drop_rest [of ?p "?p + ?n" b] pf(3,5) by simp
    have pn2: "dStart cs offset (c + 1) = ?p + ?n" using nx by simp
    show ?thesis
      unfolding list using step ih glue by (simp add: pn sub pn2)
  next
    case False
    then have ce: "c = (offset + ?L - 1) div cs" using Suc.prems(2) e by simp
    have nlast: "?n = ?L - ?p" using pf(9) [OF ce] .
    have empty: "[c + 1..e] = []" using ce e by simp
    have re: "?w + ?n = (if int (length (D c)) - ?w > ?L - ?p then ?w + (?L - ?p)
                          else int (length (D c)))"
      using lo_len nlast by auto
    have step: "readLoop cs offset ?L [(c, D c)] result ?p =
                readLoop cs offset ?L [] (result @ subslice (D c) ?w (?w + ?n))
                  (?p + (?w + ?n - ?w))"
      using readLoop_step [OF pf(4) re, of "[]" result] lo_len pf(5) by simp
    have sub: "subslice (D c) ?w (?w + ?n) = drop (nat ?p) b"
      using same nlast subslice_to_end [OF pf(3), of b] by simp
    show ?thesis
      unfolding list empty using step sub by simp
  qed
qed

lemma chunkRows_all_present:
  "(\<forall>k \<in> set ks. fs_data s (ino, k) \<noteq> None) \<Longrightarrow>
   List.map_filter (\<lambda>c. map_option (Pair c) (fs_data s (ino, c))) ks
   = map (\<lambda>k. (k, the (fs_data s (ino, k)))) ks"
  by (induction ks) (auto simp: List.map_filter_simps)

lemma ReadData_frame:
  "chunkSize s1 = chunkSize s2 \<Longrightarrow> fs_data s1 = fs_data s2 \<Longrightarrow>
   ReadData s1 ino offset len = ReadData s2 ino offset len"
  by (simp add: ReadData_def chunkRows_def)

lemma wrap64_id: "- (2 ^ 63) \<le> x \<Longrightarrow> x < 2 ^ 63 \<Longrightarrow> wrap64 x = x"
  by (simp add: wrap64_def)

lemma u64_id: "0 \<le> x \<Longrightarrow> x < 2 ^ 64 \<Longrightarrow> u64 x = x"
  by (simp add: u64_def)

lemma write_then_read_data:
  assumes cs: "0 < chunkSize s" and off: "0 \<le> offset" and L: "0 < length b"
      and rng: "offset + int (length b) < 2 ^ 63"
      and ino: "fs_inode s ino = Some i" and inv: "chunksBounded s ino"
  shows "\<exists>s'. WriteData s ino offset b = Inr s' \<and> chunkSize s' = chunkSize s \<and>
              fs_inode s' = fs_inode s \<and> chunksBounded s' ino \<and>
              ReadData s' ino offset (int (length b)) = Inr b"
proof -
  let ?cs = "chunkSize s" and ?L = "int (length b)"
  define e where "e = (offset + ?L - 1) div ?cs"
  define c where "c = offset div ?cs"
  have L': "0 < ?L" using L by simp
  have c0: "c * ?cs \<le> offset" using le_div_int [OF cs, of c offset] by (simp add: c_def)
  have ce: "c \<le> e" unfolding c_def e_def using L' by (intro zdiv_mono1 cs) simp
  have d0: "dStart ?cs offset c = 0" using c0 by (simp add: dStart_def)
  have q1: "quot offset ?cs = c" using quot_nonneg [OF off cs] by (simp add: c_def)
  have w: "wrap64 (offset + ?L - 1) = offset + ?L - 1"
    using off L' rng by (intro wrap64_id) simp_all
  have q2: "quot (wrap64 (offset + ?L - 1)) ?cs = e"
    unfolding w using quot_nonneg [of "offset + ?L - 1" ?cs] off L' cs by (simp add: e_def)
  from writeLoop_spec [OF cs off L' e_def refl ce, of s ino i] ino inv
  obtain s' where
    run: "writeLoop s ino offset b [c..e] (dStart ?cs offset c) = Inr s'"
    and keep: "chunkSize s' = ?cs" "fs_inode s' = fs_inode s" "chunksBounded s' ino"
    and all: "\<forall>k. c \<le> k \<and> k \<le> e \<longrightarrow>
                (\<exists>d. fs_data s' (ino, k) = Some d \<and> chunkHolds ?cs offset b d k)"
    by (auto simp: c_def)
  have "e \<le> (offset + ?L - 1) div 1"
    unfolding e_def using zdiv_mono2 [of "offset + ?L - 1" 1 ?cs] off L' cs by simp
  then have top: "e \<noteq> 2 ^ 63 - 1" using rng by simp
  have wd: "WriteData s ino offset b = Inr s'"
    using run L cs top by (simp add: WriteData_def writeDataTx_def Let_def q1 q2 d0)
  have present: "\<forall>k \<in> set [c..e]. fs_data s' (ino, k) \<noteq> None" using all by auto
  have rows: "chunkRows s' ino c e = map (\<lambda>k. (k, the (fs_data s' (ino, k)))) [c..e]"
    unfolding chunkRows_def using chunkRows_all_present [OF present] .
  have holds: "\<forall>k. c \<le> k \<and> k \<le> e \<longrightarrow> chunkHolds ?cs offset b (the (fs_data s' (ino, k))) k"
    using all by auto
  have rd: "readLoop ?cs offset ?L (map (\<lambda>k. (k, the (fs_data s' (ino, k)))) [c..e]) []
              (dStart ?cs offset c) = [] @ drop (nat (dStart ?cs offset c)) b"
    using readLoop_spec [OF cs off L' e_def refl ce _ holds] by (simp add: c_def)
  have "ReadData s' ino offset ?L = Inr b"
    using rd L' cs keep by (simp add: ReadData_def Let_def q1 q2 rows d0)
  then show ?thesis using wd keep by blast
qed

lemma chunksBounded_frame:
  "chunkSize s1 = chunkSize s2 \<Longrightarrow> fs_data s1 = fs_data s2 \<Longrightarrow>
   chunksBounded s1 ino = chunksBounded s2 ino"
  by (simp add: chunksBounded_def)

lemma updateRow_data: "fs_data (updateRow s ino f) = fs_data s \<and> chunkSize (updateRow s ino f) = chunkSize s"
  by (simp add: updateRow_def split: option.splits)

lemma updateRow_inode:
  "fs_inode s ino = Some i \<Longrightarrow> fs_inode (updateRow s ino f) ino = Some (f i)"
  by (simp add: updateRow_def)

lemma chunksBounded_initSchema: "chunksBounded (initSchema cs now) ino"
  by (simp add: chunksBounded_def initSchema_def)

lemma chunksBounded_CreateInodeTx:
  "chunksBounded s ino \<Longrightarrow> chunksBounded (snd (CreateInodeTx s now mode uid gid)) ino"
  by (simp add: chunksBounded_def CreateInodeTx_def Let_def)

lemma chunksBounded_truncateTx:
  assumes inv: "chunksBounded s ino" and run: "truncateTx s j sz = Inr s'"
  shows "chunksBounded s' ino"
proof -
  have old: "\<And>k d. fs_data s (ino, k) = Some d \<Longrightarrow> int (length d) \<le> chunkSize s"
    using inv by (simp add: chunksBounded_def)
  have cs: "chunkSize s' = chunkSize s"
    using run by (auto simp: truncateTx_def DeleteDataTx_def Let_def split: if_splits option.splits)
  have sub: "\<And>k d. fs_data s' (ino, k) = Some d \<Longrightarrow>
             \<exists>d0. fs_data s (ino, k) = Some d0 \<and> length d \<le> length d0"
    using run
    by (auto simp: truncateTx_def DeleteDataTx_def Let_def split: if_splits option.splits)
  show ?thesis
    unfolding chunksBounded_def cs
  proof (intro allI impI)
    fix k d assume "fs_data s' (ino, k) = Some d"
    from sub [OF this] obtain d0 where "fs_data s (ino, k) = Some d0" "length d \<le> length d0"
      by blast
    with old [of k d0] show "int (length d) \<le> chunkSize s" by simp
  qed
qed

text \<open>
  Claim C2, as amended. For a delta file whose inode is still in the store (the file has
  not been unlinked since it was opened), for every byte string \<open>b\<close> and every offset
  \<open>o \<ge> 0\<close> with \<open>o + len(b) < 2^63\<close>: \<open>Write(b, o)\<close> succeeds, a \<open>Read\<close> of \<open>len(b)\<close>
  bytes at \<open>o\<close> then returns \<open>b\<close>, and the inode's size is the larger of its size
  before and \<open>o + len(b)\<close>. The store has a positive chunk size, as \<open>Open\<close> gives it,
  and no chunk of the file is longer than the chunk size, which is true of a new store
  and kept by every write and truncation.
\<close>

theorem chunk_round_trip:
  assumes cs: "0 < chunkSize s"
      and ino: "fs_inode s ino = Some i"
      and inv: "chunksBounded s ino"
      and off: "0 \<le> offset"
      and rng: "offset + int (length b) < 2 ^ 63"
  shows "\<exists>s'. AgentFile_Write s now ino b offset = (Inr (length b), s') \<and>
              AgentFile_Read s' ino (length b) offset = Inr b \<and>
              map_option Size (fs_inode s' ino) = Some (max (Size i) (offset + int (length b))) \<and>
              chunksBounded s' ino"
proof -
  obtain s1 where
    wd: "WriteData s ino offset b = Inr s1" and k1: "chunkSize s1 = chunkSize s"
    and k2: "fs_inode s1 = fs_inode s" and k3: "chunksBounded s1 ino"
    and rd: "ReadData s1 ino offset (int (length b)) = Inr b"
  proof (cases "length b = 0")
    case True
    then show ?thesis using that [of s] inv by (simp add: WriteData_def ReadData_def)
  next
    case False
    then have "0 < length b" by simp
    from write_then_read_data [OF cs off this rng ino inv] that show ?thesis by blast
  qed
  have gi: "GetInode s1 ino = Inr i" using ino k2 by (simp add: GetInode_def)
  let ?new = "offset + int (length b)"
  have u: "u64 (u64 offset + int (length b)) = ?new"
    using off rng by (simp add: u64_id)
  define s' where
    "s' = (if ?new > Size i then UpdateSizeTx s1 now ino ?new
           else UpdateTimes s1 now ino None (Some now))"
  have us: "UpdateSize s1 now ino ?new = Inr (UpdateSizeTx s1 now ino ?new)"
    using rng by (simp add: UpdateSize_def UpdateSizeTx_def)
  have run: "AgentFile_Write s now ino b offset = (Inr (length b), s')"
    using wd gi by (simp add: AgentFile_Write_def Let_def u us s'_def)
  have fr: "chunkSize s' = chunkSize s1" "fs_data s' = fs_data s1"
    by (simp_all add: s'_def UpdateSizeTx_def UpdateTimes_def updateRow_data)
  have rd': "ReadData s' ino offset (int (length b)) = Inr b"
    using ReadData_frame [OF fr] rd by simp
  have read: "AgentFile_Read s' ino (length b) offset = Inr b"
    using rd' by (simp add: AgentFile_Read_def)
  have i1: "fs_inode s1 ino = Some i" using ino k2 by simp
  have size: "map_option Size (fs_inode s' ino) = Some (max (Size i) ?new)"
    using updateRow_inode [OF i1]
    by (simp add: s'_def UpdateSizeTx_def UpdateTimes_def max_def)
  have bnd: "chunksBounded s' ino" using chunksBounded_frame [OF fr] k3 by simp
  show ?thesis using run read size bnd by blast
qed

theorem chunk_round_trip_witness:
  "\<exists>s'. AgentFile_Write (snd (CreateInodeTx (initSchema 4 0) 0 33188 0 0)) 9 2
           [1, 2, 3, 4, 5, 6] 3 = (Inr 6, s') \<and>
        AgentFile_Read s' 2 6 3 = Inr [1, 2, 3, 4, 5, 6] \<and>
        map_option Size (fs_inode s' 2) = Some 9"
proof -
  let ?s = "snd (CreateInodeTx (initSchema 4 0) 0 33188 0 0)"
  let ?i = "\<lparr> Ino = 2, Mode = 33188, Nlink = 1, UID = 0, GID = 0, Size = 0,
              Atime = 0, Mtime = 0, Ctime = 0 \<rparr>"
  have cs: "0 < chunkSize ?s" by (simp add: CreateInodeTx_def initSchema_def Let_def)
  have ino: "fs_inode ?s 2 = Some ?i" by (simp add: CreateInodeTx_def initSchema_def Let_def)
  have inv: "chunksBounded ?s 2"
    by (rule chunksBounded_CreateInodeTx) (rule chunksBounded_initSchema)
  have off: "(0::int) \<le> 3" by simp
  have rng: "3 + int (length [1, 2, 3, 4, 5, 6 :: byte]) < 2 ^ 63" by simp
  from chunk_round_trip [OF cs ino inv off rng, of 9] show ?thesis
    by (auto simp: eval_nat_numeral)
qed

text \<open>
  The claim as stated fails in two places. A file that is unlinked while it is open
  loses its inode, since nothing counts open handles, and a later \<open>Write\<close> through the
  handle is refused by the foreign key of \<open>fs_data\<close>. At offset \<open>2^63 - 1\<close> a write of
  two bytes wraps \<open>offset + length - 1\<close> around, stores no chunk, and fails when the new
  size \<open>2^63 + 1\<close> is refused as a statement argument; a read at that offset then
  returns nothing.
\<close>

theorem write_unlinked_or_past_int64_counterexample:
  "fst (AgentFS_Create (NewAgentFS (initSchema 4096 0)) 1 ''/f'' 420) =
     Inr (2, \<lparr> stIno = 2, stMode = 33188, stNlink = 1, stUid = 0, stGid = 0, stSize = 0,
               stAtime = 1, stMtime = 1, stCtime = 1 \<rparr>) \<and>
   fst (AgentFS_Remove (snd (AgentFS_Create (NewAgentFS (initSchema 4096 0)) 1 ''/f'' 420))
          2 ''/f'') = Inr () \<and>
   fst (AgentFile_Write
          (store (snd (AgentFS_Remove
                         (snd (AgentFS_Create (NewAgentFS (initSchema 4096 0)) 1 ''/f'' 420))
                         2 ''/f'')))
          3 2 [104, 105] 0) = Inl SqlError \<and>
   fst (AgentFile_Write
          (store (snd (AgentFS_Create (NewAgentFS (initSchema 4096 0)) 1 ''/f'' 420)))
          3 2 [104, 105] 9223372036854775807) = Inl SqlError \<and>
   AgentFile_Read
     (snd (AgentFile_Write
             (store (snd (AgentFS_Create (NewAgentFS (initSchema 4096 0)) 1 ''/f'' 420)))
             3 2 [104, 105] 9223372036854775807))
     2 2 9223372036854775807 = Inr []"
  by code_simp

section \<open>Copy-up and the reported inode number\<close>

lemma writeChunk_frame:
  "writeChunk s ino offset b k d = Inr (d', s') \<Longrightarrow>
   fs_dentry s' = fs_dentry s \<and> fs_inode s' = fs_inode s \<and> nextIno s' = nextIno s"
  by (auto simp: writeChunk_def Let_def split: if_splits)

lemma writeLoop_frame:
  "writeLoop s ino offset b ks d = Inr s' \<Longrightarrow>
   fs_dentry s' = fs_dentry s \<and> fs_inode s' = fs_inode s \<and> nextIno s' = nextIno s"
proof (induction ks arbitrary: s d)
  case Nil
  then show ?case by simp
next
  case (Cons k ks)
  from Cons.prems obtain d1 s1 where
    st: "writeChunk s ino offset b k d = Inr (d1, s1)" and rest: "writeLoop s1 ino offset b ks d1 = Inr s'"
    by (auto split: sum.splits)
  from writeChunk_frame [OF st] Cons.IH [OF rest] show ?case by simp
qed

lemma writeDataTx_frame:
  "writeDataTx s ino offset b = Inr s' \<Longrightarrow>
   fs_dentry s' = fs_dentry s \<and> fs_inode s' = fs_inode s \<and> nextIno s' = nextIno s"
  by (auto simp: writeDataTx_def Let_def dest: writeLoop_frame split: if_splits sum.splits)










text \<open>
  A second \<open>CopyFromBase\<close> of a regular file finds the dentry taken: the transaction is
  rolled back, and the function returns the number of the rolled-back inode, 5, which
  names no row.
\<close>

lemma CopyFromBase_after_rollback:
  "fst (CopyFromBase (NewAgentFS (initSchema 4096 0)) 5 ''/c/d/e'' hostCDE) = Inr 4 \<and>
   fst (CopyFromBase (snd (CopyFromBase (NewAgentFS (initSchema 4096 0)) 5 ''/c/d/e'' hostCDE))
          6 ''/c/d/e'' hostCDE) = Inr 5 \<and>
   fs_inode (store (snd (CopyFromBase
                           (snd (CopyFromBase (NewAgentFS (initSchema 4096 0)) 5 ''/c/d/e'' hostCDE))
                           6 ''/c/d/e'' hostCDE))) 5 = None"
  by code_simp






section \<open>Link counts of directories are kept\<close>

lemma childDirs_append:
  assumes d: "fs_dentry s' = fs_dentry s @ [Dentry p name n]"
      and same: "\<And>e. e \<in> set (fs_dentry s) \<Longrightarrow> isDirAt s' (DentryIno e) = isDirAt s (DentryIno e)"
  shows "childDirs s' q = childDirs s q + (if p = q \<and> isDirAt s' n then 1 else 0)"
proof -
  have "filter (\<lambda>e. ParentIno e = q \<and> isDirAt s' (DentryIno e)) (fs_dentry s)
        = filter (\<lambda>e. ParentIno e = q \<and> isDirAt s (DentryIno e)) (fs_dentry s)"
    by (rule filter_cong) (auto simp: same)
  then show ?thesis by (simp add: childDirs_def d)
qed

lemma inoFresh_old_child:
  "inoFresh s \<Longrightarrow> e \<in> set (fs_dentry s) \<Longrightarrow> DentryIno e \<noteq> nextIno s \<and> ParentIno e \<noteq> nextIno s"
  by (auto simp: inoFresh_def)

lemma inoFresh_next_absent: "inoFresh s \<Longrightarrow> fs_inode s (nextIno s) = None"
  by (auto simp: inoFresh_def)

lemma storeInv_add_nondir:
  assumes inv: "storeInv s"
      and d: "fs_dentry s' = fs_dentry s @ [Dentry p name (nextIno s)]"
      and nx: "nextIno s' = nextIno s + 1"
      and same: "\<And>x. x \<noteq> nextIno s \<Longrightarrow> fs_inode s' x = fs_inode s x"
      and nd: "\<not> isDirAt s' (nextIno s)"
      and key: "\<forall>e \<in> set (fs_dentry s). \<not> (ParentIno e = p \<and> Name e = name)"
      and p: "p \<le> nextIno s"
  shows "storeInv s'"
proof -
  let ?n = "nextIno s"
  from inv have nl: "nlinkInv s" and du: "dirUnique s" and ku: "keyUnique s" and fr: "inoFresh s"
    by (simp_all add: storeInv_def)
  have absent: "fs_inode s ?n = None" using fr by (rule inoFresh_next_absent)
  have dirs: "\<And>x. isDirAt s' x = isDirAt s x"
  proof -
    fix x show "isDirAt s' x = isDirAt s x"
    proof (cases "x = ?n")
      case True
      then show ?thesis using nd absent by (simp add: isDirAt_def)
    next
      case False
      then show ?thesis using same by (simp add: isDirAt_def)
    qed
  qed
  have cd: "childDirs s' x = childDirs s x" for x
    using childDirs_append [OF d, where q = x] dirs nd by simp
  have nl': "nlinkInv s'"
    unfolding nlinkInv_def
  proof (intro allI impI)
    fix x i assume a: "fs_inode s' x = Some i \<and> IsDir i"
    then have "isDirAt s' x" by (simp add: isDirAt_def)
    then have "x \<noteq> ?n" using nd by auto
    then have "fs_inode s x = Some i" using a same by simp
    with a nl show "Nlink i = linkBase x + int (childDirs s' x)"
      by (simp add: nlinkInv_def cd)
  qed
  have du': "dirUnique s'"
    unfolding dirUnique_def
  proof (intro allI impI)
    fix x assume "isDirAt s' x"
    then have dx: "isDirAt s x" and "x \<noteq> ?n" using dirs nd by auto
    then show "length (filter (\<lambda>e. DentryIno e = x) (fs_dentry s')) \<le> 1"
      using du by (simp add: dirUnique_def d)
  qed
  have ku': "keyUnique s'"
    using ku key by (auto simp: keyUnique_def d)
  have fr': "inoFresh s'"
    using fr p same
    unfolding inoFresh_def nx d
    by (auto simp: less_Suc_eq)
  show ?thesis using nl' du' ku' fr' by (simp add: storeInv_def)
qed

lemma storeInv_add_dir:
  assumes inv: "storeInv s"
      and d: "fs_dentry s' = fs_dentry s @ [Dentry p name (nextIno s)]"
      and nx: "nextIno s' = nextIno s + 1"
      and same: "\<And>x. x \<noteq> nextIno s \<Longrightarrow> x \<noteq> p \<Longrightarrow> fs_inode s' x = fs_inode s x"
      and new: "\<exists>i. fs_inode s' (nextIno s) = Some i \<and> IsDir i \<and>
                    Nlink i = (if p = nextIno s then 2 else 1)"
      and par: "p \<noteq> nextIno s \<Longrightarrow>
                  \<exists>i. fs_inode s p = Some i \<and>
                      fs_inode s' p = Some (i\<lparr> Nlink := Nlink i + 1, Ctime := now \<rparr>)"
      and key: "\<forall>e \<in> set (fs_dentry s). \<not> (ParentIno e = p \<and> Name e = name)"
  shows "storeInv s'"
proof -
  let ?n = "nextIno s"
  from inv have nl: "nlinkInv s" and du: "dirUnique s" and ku: "keyUnique s" and fr: "inoFresh s"
    by (simp_all add: storeInv_def)
  have absent: "fs_inode s ?n = None" using fr by (rule inoFresh_next_absent)
  have n1: "?n \<noteq> 1" using fr by (simp add: inoFresh_def)
  have dn: "isDirAt s' ?n" using new by (auto simp: isDirAt_def)
  have dirs: "isDirAt s' x = isDirAt s x" if "x \<noteq> ?n" for x
  proof (cases "x = p")
    case True
    with that par obtain i where "fs_inode s p = Some i"
      "fs_inode s' p = Some (i\<lparr> Nlink := Nlink i + 1, Ctime := now \<rparr>)" by auto
    then show ?thesis using True by (simp add: isDirAt_def IsDir_def)
  next
    case False
    then show ?thesis using same that by (simp add: isDirAt_def)
  qed
  have old: "isDirAt s' (DentryIno e) = isDirAt s (DentryIno e)" if "e \<in> set (fs_dentry s)" for e
    using inoFresh_old_child [OF fr that] dirs by simp
  have cd: "childDirs s' x = childDirs s x + (if p = x then 1 else 0)" for x
    using childDirs_append [OF d old, where q = x] dn by simp
  have nopar: "childDirs s ?n = 0"
    using fr by (auto simp: childDirs_def inoFresh_def filter_empty_conv)
  have nl': "nlinkInv s'"
    unfolding nlinkInv_def
  proof (intro allI impI)
    fix x i assume a: "fs_inode s' x = Some i \<and> IsDir i"
    show "Nlink i = linkBase x + int (childDirs s' x)"
    proof (cases "x = ?n")
      case True
      with a new have "Nlink i = (if p = ?n then 2 else 1)" by auto
      then show ?thesis using True n1 nopar by (simp add: cd linkBase_def)
    next
      case False
      show ?thesis
      proof (cases "x = p")
        case True
        with False par obtain i0 where i0: "fs_inode s p = Some i0"
          "fs_inode s' p = Some (i0\<lparr> Nlink := Nlink i0 + 1, Ctime := now \<rparr>)" by auto
        with a True have i: "i = i0\<lparr> Nlink := Nlink i0 + 1, Ctime := now \<rparr>" by simp
        then have "IsDir i0" using a by (simp add: IsDir_def)
        with i0 nl have "Nlink i0 = linkBase p + int (childDirs s p)" by (simp add: nlinkInv_def)
        then show ?thesis using True i by (simp add: cd)
      next
        case np: False
        with False same a have "fs_inode s x = Some i" by simp
        with a nl have "Nlink i = linkBase x + int (childDirs s x)" by (simp add: nlinkInv_def)
        then show ?thesis using np by (simp add: cd)
      qed
    qed
  qed
  have nochild: "filter (\<lambda>e. DentryIno e = ?n) (fs_dentry s) = []"
    using fr by (auto simp: inoFresh_def filter_empty_conv)
  have du': "dirUnique s'"
    unfolding dirUnique_def
  proof (intro allI impI)
    fix x assume dx: "isDirAt s' x"
    show "length (filter (\<lambda>e. DentryIno e = x) (fs_dentry s')) \<le> 1"
    proof (cases "x = ?n")
      case True
      then show ?thesis using nochild by (simp add: d)
    next
      case False
      then have "isDirAt s x" using dx dirs by simp
      then show ?thesis using du False by (simp add: dirUnique_def d)
    qed
  qed
  have ku': "keyUnique s'"
    using ku key by (auto simp: keyUnique_def d)
  have pn: "p \<le> ?n"
  proof (cases "p = ?n")
    case False
    with par obtain i where "fs_inode s p = Some i" by auto
    then show ?thesis using fr by (auto simp: inoFresh_def dest: less_imp_le)
  qed simp
  have dom: "d < ?n + 1" if "fs_inode s' d \<noteq> None" for d
  proof (cases "d = ?n \<or> d = p")
    case True
    then show ?thesis using pn by auto
  next
    case False
    then have "fs_inode s d \<noteq> None" using that same by simp
    then show ?thesis using fr by (auto simp: inoFresh_def)
  qed
  have fr': "inoFresh s'"
    using fr pn dom
    unfolding inoFresh_def nx d
    by (auto simp: less_Suc_eq)
  show ?thesis using nl' du' ku' fr' by (simp add: storeInv_def)
qed

lemma dir_mode_perm: "(mode :: mode_t) AND S_IFMT = 0 \<Longrightarrow> (S_IFDIR OR mode) AND S_IFMT = S_IFDIR"
  by (simp add: bit.conj_disj_distrib2 S_IFDIR_def S_IFMT_def)

lemma reg_mode_not_dir: "(S_IFREG OR (mode :: mode_t)) AND S_IFMT \<noteq> S_IFDIR"
proof
  assume "(S_IFREG OR mode) AND S_IFMT = S_IFDIR"
  then have "bit ((S_IFREG OR mode) AND S_IFMT) 15 = bit S_IFDIR 15" by simp
  then show False by (simp add: bit_simps S_IFREG_def S_IFMT_def S_IFDIR_def)
qed

lemma regular_not_dir: "m AND S_IFMT = S_IFREG \<Longrightarrow> m AND S_IFMT \<noteq> S_IFDIR"
  by (simp add: S_IFREG_def S_IFDIR_def)

lemma symlink_not_dir: "m AND S_IFMT = S_IFLNK \<Longrightarrow> m AND S_IFMT \<noteq> S_IFDIR"
  by (simp add: S_IFLNK_def S_IFDIR_def)

lemma addDir_steps:
  assumes inv: "storeInv s"
      and c: "CreateInodeTx s now m u g = (n, s1)"
      and d: "CreateDentryTx s1 p name n = Inr s2"
      and m: "m AND S_IFMT = S_IFDIR"
  shows "storeInv (IncrNlinkTx s2 now p)"
proof (rule storeInv_add_dir [OF inv, where p = p and name = name and now = now])
  let ?s' = "IncrNlinkTx s2 now p"
  have n: "n = nextIno s" and s1: "s1 = s\<lparr> nextIno := n + 1, fs_inode := (fs_inode s)(n \<mapsto>
      \<lparr> Ino = n, Mode = m, Nlink = 1, UID = u, GID = g, Size = 0,
        Atime = now, Mtime = now, Ctime = now \<rparr>) \<rparr>"
    using c by (auto simp: CreateInodeTx_def Let_def)
  have s2: "s2 = s1\<lparr> fs_dentry := fs_dentry s1 @ [Dentry p name n] \<rparr>"
    and key: "\<forall>e \<in> set (fs_dentry s1). \<not> (ParentIno e = p \<and> Name e = name)"
    and pex: "fs_inode s1 p \<noteq> None"
    using d by (auto simp: CreateDentryTx_def split: if_splits)
  show "fs_dentry ?s' = fs_dentry s @ [Dentry p name (nextIno s)]"
    by (simp add: IncrNlinkTx_def updateRow_dentry s2 s1 n)
  show "nextIno ?s' = nextIno s + 1"
    by (simp add: IncrNlinkTx_def updateRow_def s2 s1 n split: option.splits)
  show "\<And>x. x \<noteq> nextIno s \<Longrightarrow> x \<noteq> p \<Longrightarrow> fs_inode ?s' x = fs_inode s x"
    by (simp add: IncrNlinkTx_def updateRow_def s2 s1 n split: option.splits)
  show "\<exists>i. fs_inode ?s' (nextIno s) = Some i \<and> IsDir i \<and> Nlink i = (if p = nextIno s then 2 else 1)"
    using m by (auto simp: IncrNlinkTx_def updateRow_def s2 s1 n IsDir_def split: option.splits)
  show "p \<noteq> nextIno s \<Longrightarrow>
          \<exists>i. fs_inode s p = Some i \<and>
              fs_inode ?s' p = Some (i\<lparr> Nlink := Nlink i + 1, Ctime := now \<rparr>)"
    using pex by (auto simp: IncrNlinkTx_def updateRow_def s2 s1 n split: option.splits)
  show "\<forall>e \<in> set (fs_dentry s). \<not> (ParentIno e = p \<and> Name e = name)"
    using key by (simp add: s1)
qed

lemma addNondir_steps:
  assumes inv: "storeInv s"
      and c: "CreateInodeTx s now m u g = (n, s1)"
      and fr: "fs_dentry s2 = fs_dentry s1" "nextIno s2 = nextIno s1"
              "\<And>x. x \<noteq> n \<Longrightarrow> fs_inode s2 x = fs_inode s1 x"
      and nd: "\<not> isDirAt s2 n"
      and d: "CreateDentryTx s2 p name n = Inr s'"
  shows "storeInv s'"
proof (rule storeInv_add_nondir [OF inv, where p = p and name = name])
  have n: "n = nextIno s" and s1: "fs_dentry s1 = fs_dentry s" "nextIno s1 = n + 1"
    "\<And>x. x \<noteq> n \<Longrightarrow> fs_inode s1 x = fs_inode s x"
    using c by (auto simp: CreateInodeTx_def Let_def)
  have s': "s' = s2\<lparr> fs_dentry := fs_dentry s2 @ [Dentry p name n] \<rparr>"
    and key: "\<forall>e \<in> set (fs_dentry s2). \<not> (ParentIno e = p \<and> Name e = name)"
    and pex: "fs_inode s2 p \<noteq> None"
    using d by (auto simp: CreateDentryTx_def split: if_splits)
  show "fs_dentry s' = fs_dentry s @ [Dentry p name (nextIno s)]" by (simp add: s' fr s1 n)
  show "nextIno s' = nextIno s + 1" using s1(2) by (simp add: s' fr n)
  show "\<And>x. x \<noteq> nextIno s \<Longrightarrow> fs_inode s' x = fs_inode s x" using fr(3) s1(3) by (simp add: s' n)
  show "\<not> isDirAt s' (nextIno s)" using nd by (simp add: s' n isDirAt_def)
  show "\<forall>e \<in> set (fs_dentry s). \<not> (ParentIno e = p \<and> Name e = name)" using key by (simp add: fr s1)
  show "p \<le> nextIno s"
  proof (cases "p = n")
    case True
    then show ?thesis by (simp add: n)
  next
    case False
    then have "fs_inode s p \<noteq> None" using pex fr(3) s1(3) by simp
    then show ?thesis using inv by (auto simp: storeInv_def inoFresh_def dest: less_imp_le)
  qed
qed

lemma mkdirTx_inv:
  "storeInv s \<Longrightarrow> mode AND S_IFMT = 0 \<Longrightarrow> mkdirTx s now p name mode = Inr s' \<Longrightarrow> storeInv s'"
  by (auto simp: mkdirTx_def split: prod.splits sum.splits
      intro: addDir_steps dest: dir_mode_perm)

lemma copyDirTx_inv:
  "storeInv s \<Longrightarrow> StatsIsDir stats \<Longrightarrow> copyDirTx s now p name stats = Inr (ino, s') \<Longrightarrow> storeInv s'"
  by (auto simp: copyDirTx_def StatsIsDir_def split: prod.splits sum.splits intro: addDir_steps)

lemma createTx_inv:
  assumes "storeInv s" "createTx s now p name mode = Inr (ino, s')"
  shows "storeInv s'"
proof -
  obtain n s1 where c: "CreateInodeTx s now (S_IFREG OR mode) 0 0 = (n, s1)"
    by (cases "CreateInodeTx s now (S_IFREG OR mode) 0 0")
  then have d: "CreateDentryTx s1 p name n = Inr s'"
    using assms(2) by (auto simp: createTx_def split: sum.splits)
  have nd: "\<not> isDirAt s1 n"
    using c reg_mode_not_dir [of mode] by (auto simp: CreateInodeTx_def Let_def isDirAt_def IsDir_def)
  show ?thesis by (rule addNondir_steps [OF assms(1) c _ _ _ nd d]) simp_all
qed

lemma copyRegularTx_inv:
  assumes "storeInv s" "StatsIsRegular stats"
      and "copyRegularTx s now p name stats data = Inr (ino, s')"
  shows "storeInv s'"
proof -
  obtain n s1 where c: "CreateInodeTx s now (stMode stats) (stUid stats) (stGid stats) = (n, s1)"
    by (cases "CreateInodeTx s now (stMode stats) (stUid stats) (stGid stats)")
  obtain s2 where w: "(if length data > 0 then writeDataTx s1 n 0 data else Inr s1) = Inr s2"
    using assms(3) c by (auto simp: copyRegularTx_def split: sum.splits)
  have s2: "fs_dentry s2 = fs_dentry s1" "fs_inode s2 = fs_inode s1" "nextIno s2 = nextIno s1"
    using w by (auto dest: writeDataTx_frame split: if_splits)
  let ?s3 = "UpdateSizeTx s2 now n (int (length data))"
  have d: "CreateDentryTx ?s3 p name n = Inr s'"
    using assms(3) c w by (auto simp: copyRegularTx_def split: sum.splits)
  have i1: "fs_inode s1 n = Some \<lparr> Ino = n, Mode = stMode stats, Nlink = 1, UID = stUid stats,
              GID = stGid stats, Size = 0, Atime = now, Mtime = now, Ctime = now \<rparr>"
    using c by (auto simp: CreateInodeTx_def Let_def)
  have nd: "\<not> isDirAt ?s3 n"
    using i1 s2 assms(2) regular_not_dir [of "stMode stats"]
    by (simp add: UpdateSizeTx_def updateRow_def isDirAt_def IsDir_def StatsIsRegular_def)
  show ?thesis
  proof (rule addNondir_steps [OF assms(1) c _ _ _ nd d])
    show "fs_dentry ?s3 = fs_dentry s1" by (simp add: UpdateSizeTx_def updateRow_dentry s2)
    show "nextIno ?s3 = nextIno s1" by (simp add: UpdateSizeTx_def updateRow_def s2 split: option.splits)
    show "\<And>x. x \<noteq> n \<Longrightarrow> fs_inode ?s3 x = fs_inode s1 x"
      by (simp add: UpdateSizeTx_def updateRow_def s2 split: option.splits)
  qed
qed

lemma copySymlinkTx_inv:
  assumes "storeInv s" "StatsIsSymlink stats"
      and "copySymlinkTx s now p name stats target = Inr (ino, s')"
  shows "storeInv s'"
proof -
  obtain n s1 where c: "CreateInodeTx s now (stMode stats) (stUid stats) (stGid stats) = (n, s1)"
    by (cases "CreateInodeTx s now (stMode stats) (stUid stats) (stGid stats)")
  obtain s2 where w: "CreateSymlinkTx s1 n target = Inr s2"
    using assms(3) c by (auto simp: copySymlinkTx_def split: sum.splits)
  have s2: "fs_dentry s2 = fs_dentry s1" "fs_inode s2 = fs_inode s1" "nextIno s2 = nextIno s1"
    using w by (auto simp: CreateSymlinkTx_def split: if_splits)
  let ?s3 = "UpdateSizeTx s2 now n (int (length target))"
  have d: "CreateDentryTx ?s3 p name n = Inr s'"
    using assms(3) c w by (auto simp: copySymlinkTx_def split: sum.splits)
  have i1: "fs_inode s1 n = Some \<lparr> Ino = n, Mode = stMode stats, Nlink = 1, UID = stUid stats,
              GID = stGid stats, Size = 0, Atime = now, Mtime = now, Ctime = now \<rparr>"
    using c by (auto simp: CreateInodeTx_def Let_def)
  have nd: "\<not> isDirAt ?s3 n"
    using i1 s2 assms(2) symlink_not_dir [of "stMode stats"]
    by (simp add: UpdateSizeTx_def updateRow_def isDirAt_def IsDir_def StatsIsSymlink_def)
  show ?thesis
  proof (rule addNondir_steps [OF assms(1) c _ _ _ nd d])
    show "fs_dentry ?s3 = fs_dentry s1" by (simp add: UpdateSizeTx_def updateRow_dentry s2)
    show "nextIno ?s3 = nextIno s1" by (simp add: UpdateSizeTx_def updateRow_def s2 split: option.splits)
    show "\<And>x. x \<noteq> n \<Longrightarrow> fs_inode ?s3 x = fs_inode s1 x"
      by (simp add: UpdateSizeTx_def updateRow_def s2 split: option.splits)
  qed
qed

lemma filter_le1_unique:
  "length (filter P xs) \<le> 1 \<Longrightarrow> a \<in> set xs \<Longrightarrow> P a \<Longrightarrow> b \<in> set xs \<Longrightarrow> P b \<Longrightarrow> a = b"
proof -
  assume l: "length (filter P xs) \<le> 1" and a: "a \<in> set xs" "P a" and b: "b \<in> set xs" "P b"
  have ma: "a \<in> set (filter P xs)" and mb: "b \<in> set (filter P xs)" using a b by simp_all
  show "a = b"
  proof (cases "filter P xs")
    case Nil
    then show ?thesis using ma by simp
  next
    case (Cons y ys)
    then have "ys = []" using l by simp
    then show ?thesis using ma mb Cons by simp
  qed
qed

lemma key_unique:
  "distinct (map f xs) \<Longrightarrow> a \<in> set xs \<Longrightarrow> b \<in> set xs \<Longrightarrow> f a = f b \<Longrightarrow> a = b"
  by (auto simp: distinct_map dest: inj_onD)

lemma filter_remove_one:
  "distinct xs \<Longrightarrow> e0 \<in> set xs \<Longrightarrow>
   length (filter P xs) = length (filter P (filter (\<lambda>e. e \<noteq> e0) xs)) + (if P e0 then 1 else 0)"
proof (induction xs)
  case Nil
  then show ?case by simp
next
  case (Cons x xs)
  show ?case
  proof (cases "x = e0")
    case True
    then have "e0 \<notin> set xs" using Cons.prems by simp
    then have "filter (\<lambda>e. e \<noteq> e0) xs = xs" by (auto intro: filter_True)
    then show ?thesis using True by simp
  next
    case False
    then show ?thesis using Cons by simp
  qed
qed

lemma filter_filter_le: "length (filter P (filter Q xs)) \<le> length (filter P xs)"
  by (induction xs) (auto intro: le_SucI)

lemma Lookup_member:
  "Lookup s p name = Inr ino \<Longrightarrow> Dentry p name ino \<in> set (fs_dentry s)"
proof -
  assume l: "Lookup s p name = Inr ino"
  then obtain e where f: "find (\<lambda>d. ParentIno d = p \<and> Name d = name) (fs_dentry s) = Some e"
    and i: "DentryIno e = ino"
    by (auto simp: Lookup_def split: option.splits)
  from f have "e \<in> set (fs_dentry s)" "ParentIno e = p" "Name e = name"
    by (auto simp: find_Some_iff)
  then show ?thesis using i by (cases e) auto
qed

lemma storeInv_shrink:
  assumes inv: "storeInv s"
      and d: "fs_dentry s' = filter K (fs_dentry s)"
      and rm: "\<And>e. e \<in> set (fs_dentry s) \<Longrightarrow> \<not> K e \<Longrightarrow> DentryIno e = ino \<or> ParentIno e = ino"
      and same: "\<And>x. x \<noteq> ino \<Longrightarrow> fs_inode s' x = fs_inode s x"
      and nd: "\<not> isDirAt s ino" "\<not> isDirAt s' ino"
      and ex: "fs_inode s' ino \<noteq> None \<Longrightarrow> fs_inode s ino \<noteq> None"
      and nx: "nextIno s' = nextIno s"
  shows "storeInv s'"
proof -
  from inv have nl: "nlinkInv s" and du: "dirUnique s" and ku: "keyUnique s" and fr: "inoFresh s"
    by (simp_all add: storeInv_def)
  have dirs: "isDirAt s' x = isDirAt s x" for x
    using nd same [of x] by (cases "x = ino") (simp_all add: isDirAt_def)
  have cd: "childDirs s' x = childDirs s x" if "x \<noteq> ino" for x
  proof -
    have "filter (\<lambda>e. ParentIno e = x \<and> isDirAt s' (DentryIno e)) (filter K (fs_dentry s))
          = filter (\<lambda>e. ParentIno e = x \<and> isDirAt s (DentryIno e)) (fs_dentry s)"
      unfolding filter_filter
    proof (rule filter_cong [OF refl])
      fix e assume e: "e \<in> set (fs_dentry s)"
      show "(K e \<and> ParentIno e = x \<and> isDirAt s' (DentryIno e))
            = (ParentIno e = x \<and> isDirAt s (DentryIno e))"
        using rm [OF e] that nd dirs by auto
    qed
    then show ?thesis by (simp add: childDirs_def d)
  qed
  have nl': "nlinkInv s'"
    unfolding nlinkInv_def
  proof (intro allI impI)
    fix x i assume a: "fs_inode s' x = Some i \<and> IsDir i"
    then have "isDirAt s' x" by (simp add: isDirAt_def)
    then have x: "x \<noteq> ino" using nd by auto
    then have "fs_inode s x = Some i" using a same by simp
    with a nl show "Nlink i = linkBase x + int (childDirs s' x)"
      by (simp add: nlinkInv_def cd [OF x])
  qed
  have du': "dirUnique s'"
    unfolding dirUnique_def
  proof (intro allI impI)
    fix x assume "isDirAt s' x"
    then have "isDirAt s x" using dirs by simp
    then have "length (filter (\<lambda>e. DentryIno e = x) (fs_dentry s)) \<le> 1"
      using du by (simp add: dirUnique_def)
    then show "length (filter (\<lambda>e. DentryIno e = x) (fs_dentry s')) \<le> 1"
      unfolding d using filter_filter_le [of "\<lambda>e. DentryIno e = x" K "fs_dentry s"] by simp
  qed
  have ku': "keyUnique s'"
    using ku by (simp add: keyUnique_def d distinct_map_filter)
  have fr': "inoFresh s'"
    unfolding inoFresh_def nx d
  proof (intro conjI allI impI ballI)
    show "1 < nextIno s" using fr by (simp add: inoFresh_def)
  next
    fix x assume x: "fs_inode s' x \<noteq> None"
    have "fs_inode s x \<noteq> None" using x same [of x] ex by (cases "x = ino") auto
    then show "x < nextIno s" using fr by (simp add: inoFresh_def)
  next
    fix e assume "e \<in> set (filter K (fs_dentry s))"
    then have e: "e \<in> set (fs_dentry s)" by simp
    then show "ParentIno e < nextIno s" using fr by (simp add: inoFresh_def)
    from e show "DentryIno e < nextIno s" using fr by (simp add: inoFresh_def)
  qed
  show ?thesis using nl' du' ku' fr' by (simp add: storeInv_def)
qed

lemma removeOp_inv:
  assumes inv: "storeInv s" and r: "removeOp s now p name = Inr s'"
  shows "storeInv s'"
proof -
  obtain ino inode where l: "Lookup s p name = Inr ino" and g: "fs_inode s ino = Some inode"
    and nd: "\<not> IsDir inode" and tx: "removeTx s now p name ino inode = Inr s'"
    using r by (auto simp: removeOp_def GetInode_def split: sum.splits option.splits if_splits)
  let ?K1 = "\<lambda>d. \<not> (ParentIno d = p \<and> Name d = name)"
  let ?s1 = "s\<lparr> fs_dentry := filter ?K1 (fs_dentry s) \<rparr>"
  have d1: "DeleteDentryTx s p name = Inr ?s1"
    using tx by (auto simp: removeTx_def DeleteDentryTx_def split: sum.splits if_splits)
  let ?i2 = "inode\<lparr> Nlink := Nlink inode - 1, Ctime := now \<rparr>"
  let ?s2 = "?s1\<lparr> fs_inode := (fs_inode s)(ino \<mapsto> ?i2) \<rparr>"
  have d2: "DecrNlinkTx ?s1 now ino = Inr (Nlink inode - 1, ?s2)"
    using tx d1 g by (auto simp: removeTx_def DecrNlinkTx_def updateRow_def Let_def split: sum.splits if_splits)
  have e0: "Dentry p name ino \<in> set (fs_dentry s)" using l by (rule Lookup_member)
  have ku: "keyUnique s" using inv by (simp add: storeInv_def)
  have only: "e = Dentry p name ino" if "e \<in> set (fs_dentry s)" "\<not> ?K1 e" for e
    using key_unique [OF ku [unfolded keyUnique_def] that(1) e0] that(2) by simp
  have nds: "\<not> isDirAt s ino" using g nd by (simp add: isDirAt_def)
  show ?thesis
  proof (cases "Nlink inode - 1 = 0")
    case False
    then have s': "s' = ?s2" using tx d1 d2 by (simp add: removeTx_def)
    show ?thesis
    proof (rule storeInv_shrink [OF inv _ _ _ nds, where K = ?K1])
      show "fs_dentry s' = filter ?K1 (fs_dentry s)" by (simp add: s')
      show "DentryIno e = ino \<or> ParentIno e = ino" if "e \<in> set (fs_dentry s)" "\<not> ?K1 e" for e
        using only [OF that] by simp
      show "\<And>x. x \<noteq> ino \<Longrightarrow> fs_inode s' x = fs_inode s x" by (simp add: s')
      show "\<not> isDirAt s' ino" using nd by (simp add: s' isDirAt_def IsDir_def)
      show "fs_inode s' ino \<noteq> None \<Longrightarrow> fs_inode s ino \<noteq> None" using g by simp
      show "nextIno s' = nextIno s" by (simp add: s')
    qed
  next
    case True
    let ?K = "\<lambda>d. ?K1 d \<and> ParentIno d \<noteq> ino \<and> DentryIno d \<noteq> ino"
    have s': "s' = DeleteInodeTx
                    (if IsSymlink inode then DeleteSymlinkTx ?s2 ino else DeleteDataTx ?s2 ino) ino"
      using tx d1 d2 True by (auto simp: removeTx_def)
    show ?thesis
    proof (rule storeInv_shrink [OF inv _ _ _ nds, where K = ?K])
      show "fs_dentry s' = filter ?K (fs_dentry s)"
        by (simp add: s' DeleteInodeTx_def DeleteSymlinkTx_def DeleteDataTx_def)
      show "DentryIno e = ino \<or> ParentIno e = ino" if "e \<in> set (fs_dentry s)" "\<not> ?K e" for e
      proof (cases "?K1 e")
        case True
        then show ?thesis using that(2) by auto
      next
        case False
        then show ?thesis using only [OF that(1)] by simp
      qed
      show "\<And>x. x \<noteq> ino \<Longrightarrow> fs_inode s' x = fs_inode s x"
        by (simp add: s' DeleteInodeTx_def DeleteSymlinkTx_def DeleteDataTx_def)
      show "\<not> isDirAt s' ino"
        by (simp add: s' isDirAt_def DeleteInodeTx_def DeleteSymlinkTx_def DeleteDataTx_def)
      show "fs_inode s' ino \<noteq> None \<Longrightarrow> fs_inode s ino \<noteq> None" using g by simp
      show "nextIno s' = nextIno s"
        by (simp add: s' DeleteInodeTx_def DeleteSymlinkTx_def DeleteDataTx_def)
    qed
  qed
qed

lemma rmdirOp_inv:
  assumes inv: "storeInv s" and r: "rmdirOp s now p name = Inr s'"
  shows "storeInv s'"
proof -
  from inv have nl: "nlinkInv s" and du: "dirUnique s" and ku: "keyUnique s" and fr: "inoFresh s"
    by (simp_all add: storeInv_def)
  obtain ino inode where l: "Lookup s p name = Inr ino" and g: "fs_inode s ino = Some inode"
    and isd: "IsDir inode" and nc: "\<not> HasChildren s ino"
    and tx: "rmdirTx s now p name ino = Inr s'"
    using r by (auto simp: rmdirOp_def GetInode_def split: sum.splits option.splits if_splits)
  let ?xs = "fs_dentry s"
  let ?e0 = "Dentry p name ino"
  let ?K1 = "\<lambda>d. \<not> (ParentIno d = p \<and> Name d = name)"
  let ?K2 = "\<lambda>d. ParentIno d \<noteq> ino \<and> DentryIno d \<noteq> ino"
  have e0: "?e0 \<in> set ?xs" using l by (rule Lookup_member)
  have dist: "distinct ?xs" using ku by (simp add: keyUnique_def distinct_map)
  have dino: "isDirAt s ino" using g isd by (simp add: isDirAt_def)
  have nochild: "ParentIno e \<noteq> ino" if "e \<in> set ?xs" for e
    using nc that by (auto simp: HasChildren_def filter_empty_conv)
  have pne: "p \<noteq> ino" using nochild [OF e0] by simp
  have only1: "e = ?e0" if "e \<in> set ?xs" "\<not> ?K1 e" for e
    using key_unique [OF ku [unfolded keyUnique_def] that(1) e0] that(2) by simp
  have only2: "e = ?e0" if "e \<in> set ?xs" "DentryIno e = ino" for e
  proof -
    have "length (filter (\<lambda>e. DentryIno e = ino) ?xs) \<le> 1"
      using du dino by (simp add: dirUnique_def)
    from filter_le1_unique [OF this that(1) that(2) e0] show ?thesis by simp
  qed
  have flt: "filter ?K2 (filter ?K1 ?xs) = filter (\<lambda>e. e \<noteq> ?e0) ?xs"
    unfolding filter_filter
  proof (rule filter_cong [OF refl])
    fix e assume e: "e \<in> set ?xs"
    show "(?K1 e \<and> ?K2 e) = (e \<noteq> ?e0)"
      using only1 [OF e] only2 [OF e] nochild [OF e] by auto
  qed
  let ?s1 = "s\<lparr> fs_dentry := filter ?K1 ?xs \<rparr>"
  have d1: "DeleteDentryTx s p name = Inr ?s1"
    using tx by (auto simp: rmdirTx_def DeleteDentryTx_def split: sum.splits if_splits)
  let ?s2 = "DeleteInodeTx ?s1 ino"
  obtain rem where d2: "DecrNlinkTx ?s2 now p = Inr (rem, s')"
    using tx d1 by (auto simp: rmdirTx_def split: sum.splits)
  have i2: "fs_inode ?s2 p = fs_inode s p" using pne by (simp add: DeleteInodeTx_def)
  obtain ip where ip: "fs_inode s p = Some ip"
    using d2 i2 by (cases "fs_inode s p") (auto simp: DecrNlinkTx_def updateRow_def Let_def)
  let ?ip' = "ip\<lparr> Nlink := Nlink ip - 1, Ctime := now \<rparr>"
  have s': "s' = ?s2\<lparr> fs_inode := (fs_inode ?s2)(p \<mapsto> ?ip') \<rparr>"
    using d2 i2 ip by (auto simp: DecrNlinkTx_def updateRow_def Let_def split: if_splits)
  have dent: "fs_dentry s' = filter (\<lambda>e. e \<noteq> ?e0) ?xs"
    using flt by (simp add: s' DeleteInodeTx_def)
  have nx: "nextIno s' = nextIno s" by (simp add: s' DeleteInodeTx_def)
  have ino_gone: "fs_inode s' ino = None" using pne by (simp add: s' DeleteInodeTx_def)
  have ino_p: "fs_inode s' p = Some ?ip'" by (simp add: s')
  have ino_same: "fs_inode s' x = fs_inode s x" if "x \<noteq> ino" "x \<noteq> p" for x
    using that by (simp add: s' DeleteInodeTx_def)
  have dirs: "isDirAt s' x = isDirAt s x" if "x \<noteq> ino" for x
  proof (cases "x = p")
    case True
    then show ?thesis using ino_p ip by (simp add: isDirAt_def IsDir_def)
  next
    case False
    then show ?thesis using ino_same [OF that] by (simp add: isDirAt_def)
  qed
  have cd: "childDirs s x = childDirs s' x + (if x = p then 1 else 0)" for x
  proof -
    let ?P = "\<lambda>e. ParentIno e = x \<and> isDirAt s (DentryIno e)"
    have "filter (\<lambda>e. ParentIno e = x \<and> isDirAt s' (DentryIno e)) (filter (\<lambda>e. e \<noteq> ?e0) ?xs)
          = filter ?P (filter (\<lambda>e. e \<noteq> ?e0) ?xs)"
    proof (rule filter_cong [OF refl])
      fix e assume "e \<in> set (filter (\<lambda>e. e \<noteq> ?e0) ?xs)"
      then have e: "e \<in> set ?xs" and ne: "e \<noteq> ?e0" by simp_all
      then have "DentryIno e \<noteq> ino" using only2 [OF e] by auto
      then show "(ParentIno e = x \<and> isDirAt s' (DentryIno e)) = ?P e"
        by (simp add: dirs)
    qed
    then have a: "childDirs s' x = length (filter ?P (filter (\<lambda>e. e \<noteq> ?e0) ?xs))"
      by (simp add: childDirs_def dent)
    have "childDirs s x = length (filter ?P (filter (\<lambda>e. e \<noteq> ?e0) ?xs)) + (if ?P ?e0 then 1 else 0)"
      unfolding childDirs_def by (rule filter_remove_one [OF dist e0])
    then show ?thesis using a dino by auto
  qed
  have nl': "nlinkInv s'"
    unfolding nlinkInv_def
  proof (intro allI impI)
    fix x i assume a: "fs_inode s' x = Some i \<and> IsDir i"
    then have x: "x \<noteq> ino" using ino_gone by auto
    show "Nlink i = linkBase x + int (childDirs s' x)"
    proof (cases "x = p")
      case True
      then have i: "i = ?ip'" using a ino_p by simp
      then have "IsDir ip" using a by (simp add: IsDir_def)
      then have "Nlink ip = linkBase p + int (childDirs s p)"
        using nl ip by (simp add: nlinkInv_def)
      then show ?thesis using cd [of p] True i by simp
    next
      case False
      then have "fs_inode s x = Some i" using a ino_same [OF x] by simp
      then have "Nlink i = linkBase x + int (childDirs s x)"
        using nl a by (simp add: nlinkInv_def)
      then show ?thesis using cd [of x] False by simp
    qed
  qed
  have du': "dirUnique s'"
    unfolding dirUnique_def
  proof (intro allI impI)
    fix x assume a: "isDirAt s' x"
    then have "x \<noteq> ino" using ino_gone by (auto simp: isDirAt_def)
    then have "isDirAt s x" using a dirs by simp
    then have "length (filter (\<lambda>e. DentryIno e = x) ?xs) \<le> 1"
      using du by (simp add: dirUnique_def)
    then show "length (filter (\<lambda>e. DentryIno e = x) (fs_dentry s')) \<le> 1"
      unfolding dent using filter_filter_le [of "\<lambda>e. DentryIno e = x" "\<lambda>e. e \<noteq> ?e0" ?xs] by simp
  qed
  have ku': "keyUnique s'"
    using ku by (simp add: keyUnique_def dent distinct_map_filter)
  have fr': "inoFresh s'"
    unfolding inoFresh_def nx dent
  proof (intro conjI allI impI ballI)
    show "1 < nextIno s" using fr by (simp add: inoFresh_def)
  next
    fix x assume x: "fs_inode s' x \<noteq> None"
    then have "x \<noteq> ino" using ino_gone by auto
    then have "fs_inode s x \<noteq> None" using x ino_same [of x] ip by (cases "x = p") auto
    then show "x < nextIno s" using fr by (simp add: inoFresh_def)
  next
    fix e assume "e \<in> set (filter (\<lambda>e. e \<noteq> ?e0) ?xs)"
    then have e: "e \<in> set ?xs" by simp
    then show "ParentIno e < nextIno s" using fr by (simp add: inoFresh_def)
    from e show "DentryIno e < nextIno s" using fr by (simp add: inoFresh_def)
  qed
  show ?thesis using nl' du' ku' fr' by (simp add: storeInv_def)
qed

lemma linkOp_inv:
  assumes inv: "storeInv s" and g: "fs_inode s src = Some inode" and nd: "\<not> IsDir inode"
      and r: "linkOp s now src dp dn = Inr s'"
  shows "storeInv s'"
proof -
  from inv have nl: "nlinkInv s" and du: "dirUnique s" and ku: "keyUnique s" and fr: "inoFresh s"
    by (simp_all add: storeInv_def)
  let ?s1 = "s\<lparr> fs_dentry := fs_dentry s @ [Dentry dp dn src] \<rparr>"
  have c: "CreateDentryTx s dp dn src = Inr ?s1"
    and key: "\<forall>e \<in> set (fs_dentry s). \<not> (ParentIno e = dp \<and> Name e = dn)"
    and pex: "fs_inode s dp \<noteq> None"
    using r by (auto simp: linkOp_def CreateDentryTx_def split: sum.splits if_splits)
  let ?i' = "inode\<lparr> Nlink := Nlink inode + 1, Ctime := now \<rparr>"
  have s': "s' = ?s1\<lparr> fs_inode := (fs_inode s)(src \<mapsto> ?i') \<rparr>"
    using r c g by (auto simp: linkOp_def IncrNlinkTx_def updateRow_def)
  have dent: "fs_dentry s' = fs_dentry s @ [Dentry dp dn src]" by (simp add: s')
  have nx: "nextIno s' = nextIno s" by (simp add: s')
  have nds: "\<not> isDirAt s src" using g nd by (simp add: isDirAt_def)
  have nds': "\<not> isDirAt s' src" using nd by (simp add: s' isDirAt_def IsDir_def)
  have dirs: "isDirAt s' x = isDirAt s x" for x
    using nds nds' by (cases "x = src") (simp_all add: s' isDirAt_def)
  have cd: "childDirs s' x = childDirs s x" for x
    using childDirs_append [OF dent, where q = x] dirs nds' by simp
  have nl': "nlinkInv s'"
    unfolding nlinkInv_def
  proof (intro allI impI)
    fix x i assume a: "fs_inode s' x = Some i \<and> IsDir i"
    then have "isDirAt s' x" by (simp add: isDirAt_def)
    then have "x \<noteq> src" using nds' by auto
    then have "fs_inode s x = Some i" using a by (simp add: s')
    with a nl show "Nlink i = linkBase x + int (childDirs s' x)"
      by (simp add: nlinkInv_def cd)
  qed
  have du': "dirUnique s'"
    unfolding dirUnique_def
  proof (intro allI impI)
    fix x assume "isDirAt s' x"
    then have dx: "isDirAt s x" and "x \<noteq> src" using dirs nds' by auto
    then show "length (filter (\<lambda>e. DentryIno e = x) (fs_dentry s')) \<le> 1"
      using du by (simp add: dirUnique_def dent)
  qed
  have ku': "keyUnique s'"
    using ku key by (auto simp: keyUnique_def dent)
  have fr': "inoFresh s'"
    using fr pex g
    unfolding inoFresh_def nx dent
    by (auto simp: s')
  show ?thesis using nl' du' ku' fr' by (simp add: storeInv_def)
qed

lemma storeInv_initSchema: "storeInv (initSchema cs now)"
  by (simp add: storeInv_def nlinkInv_def dirUnique_def keyUnique_def inoFresh_def
      initSchema_def childDirs_def linkBase_def)

lemma AgentFS_Mkdir_inv:
  assumes "storeInv (store a)" "mode AND S_IFMT = 0"
  shows "storeInv (store (snd (AgentFS_Mkdir a now path mode)))"
proof (cases "resolveParentAndName a path")
  case (Pair r a')
  then have st: "store a' = store a" by (rule resolveParentAndName_store)
  show ?thesis
  proof (cases r)
    case (Inl e)
    then show ?thesis using Pair st assms by (simp add: AgentFS_Mkdir_def)
  next
    case (Inr pn)
    obtain p name where pn: "pn = (p, name)" by (cases pn)
    show ?thesis
    proof (cases "mkdirTx (store a') now p name mode")
      case (Inl e)
      then show ?thesis using Pair Inr pn st assms by (simp add: AgentFS_Mkdir_def withStore_def)
    next
      case tx: (Inr s')
      have "storeInv s'" using mkdirTx_inv [OF _ assms(2) tx] assms(1) st by simp
      then show ?thesis using Pair Inr pn tx by (simp add: AgentFS_Mkdir_def withStore_def)
    qed
  qed
qed

lemma AgentFS_Rmdir_inv:
  assumes "storeInv (store a)"
  shows "storeInv (store (snd (AgentFS_Rmdir a now path)))"
proof (cases "resolveParentAndName a path")
  case (Pair r a')
  then have st: "store a' = store a" by (rule resolveParentAndName_store)
  show ?thesis
  proof (cases r)
    case (Inl e)
    then show ?thesis using Pair st assms by (simp add: AgentFS_Rmdir_def)
  next
    case (Inr pn)
    obtain p name where pn: "pn = (p, name)" by (cases pn)
    show ?thesis
    proof (cases "rmdirOp (store a') now p name")
      case (Inl e)
      then show ?thesis using Pair Inr pn st assms by (simp add: AgentFS_Rmdir_def)
    next
      case tx: (Inr s')
      have "storeInv s'" using rmdirOp_inv [OF _ tx] assms st by simp
      then show ?thesis using Pair Inr pn tx by (simp add: AgentFS_Rmdir_def invalidateCache_def)
    qed
  qed
qed

lemma AgentFS_Remove_inv:
  assumes "storeInv (store a)"
  shows "storeInv (store (snd (AgentFS_Remove a now path)))"
proof (cases "resolveParentAndName a path")
  case (Pair r a')
  then have st: "store a' = store a" by (rule resolveParentAndName_store)
  show ?thesis
  proof (cases r)
    case (Inl e)
    then show ?thesis using Pair st assms by (simp add: AgentFS_Remove_def)
  next
    case (Inr pn)
    obtain p name where pn: "pn = (p, name)" by (cases pn)
    show ?thesis
    proof (cases "removeOp (store a') now p name")
      case (Inl e)
      then show ?thesis using Pair Inr pn st assms by (simp add: AgentFS_Remove_def)
    next
      case tx: (Inr s')
      have "storeInv s'" using removeOp_inv [OF _ tx] assms st by simp
      then show ?thesis using Pair Inr pn tx by (simp add: AgentFS_Remove_def invalidateCache_def)
    qed
  qed
qed

lemma AgentFS_Create_inv:
  assumes "storeInv (store a)"
  shows "storeInv (store (snd (AgentFS_Create a now path mode)))"
proof (cases "resolveParentAndName a path")
  case (Pair r a')
  then have st: "store a' = store a" by (rule resolveParentAndName_store)
  show ?thesis
  proof (cases r)
    case (Inl e)
    then show ?thesis using Pair st assms by (simp add: AgentFS_Create_def)
  next
    case (Inr pn)
    obtain p name where pn: "pn = (p, name)" by (cases pn)
    show ?thesis
    proof (cases "createTx (store a') now p name mode")
      case (Inl e)
      then show ?thesis using Pair Inr pn st assms by (simp add: AgentFS_Create_def)
    next
      case (Inr res)
      obtain ino s' where res: "res = (ino, s')" by (cases res)
      have "storeInv s'" using createTx_inv [of "store a'" now p name mode ino s'] Inr res assms st
        by simp
      then show ?thesis using Pair \<open>r = Inr pn\<close> pn Inr res
        by (simp add: AgentFS_Create_def split: sum.splits)
    qed
  qed
qed

lemma AgentFS_Link_inv:
  assumes "storeInv (store a)"
  shows "storeInv (store (snd (AgentFS_Link a now oldpath newpath)))"
proof (cases "resolvePath a oldpath")
  case (Pair r a1)
  then have st1: "store a1 = store a" by (rule resolvePath_store)
  show ?thesis
  proof (cases r)
    case (Inl e)
    then show ?thesis using Pair st1 assms by (simp add: AgentFS_Link_def)
  next
    case (Inr src)
    show ?thesis
    proof (cases "fs_inode (store a1) src")
      case None
      then show ?thesis using Pair Inr st1 assms by (simp add: AgentFS_Link_def GetInode_def)
    next
      case (Some inode)
      show ?thesis
      proof (cases "IsDir inode")
        case True
        then show ?thesis using Pair Inr Some st1 assms by (simp add: AgentFS_Link_def GetInode_def)
      next
        case False
        obtain r2 a2 where r2: "resolveParentAndName a1 newpath = (r2, a2)"
          by (cases "resolveParentAndName a1 newpath")
        then have st2: "store a2 = store a" using st1 by (simp add: resolveParentAndName_store)
        have unf: "AgentFS_Link a now oldpath newpath =
                   (case r2 of Inl e \<Rightarrow> (Inl e, a2)
                    | Inr (dp, dn) \<Rightarrow> withStore a2 (linkOp (store a2) now src dp dn))"
          using Pair Inr Some False r2 by (simp add: AgentFS_Link_def GetInode_def)
        show ?thesis
        proof (cases r2)
          case (Inl e)
          then show ?thesis using unf st2 assms by simp
        next
          case r2i: (Inr pn)
          obtain dp dn where pn: "pn = (dp, dn)" by (cases pn)
          show ?thesis
          proof (cases "linkOp (store a2) now src dp dn")
            case (Inl e)
            then show ?thesis using unf r2i pn st2 assms by (simp add: withStore_def)
          next
            case tx: (Inr s')
            have "storeInv s'"
              using linkOp_inv [of "store a" src inode now dp dn s'] assms Some False tx st1 st2
              by simp
            then show ?thesis using unf r2i pn tx by (simp add: withStore_def)
          qed
        qed
      qed
    qed
  qed
qed

lemma mode_493_perm: "(493 :: mode_t) AND S_IFMT = 0"
  by (simp add: S_IFMT_def)

lemma ensureLoop_inv:
  "storeInv (store a) \<Longrightarrow> storeInv (store (snd (ensureLoop a now parts idx)))"
proof (induction idx arbitrary: a)
  case Nil
  then show ?case by simp
next
  case (Cons i rest)
  let ?pp = "joinPath (take i parts)"
  obtain r a1 where res: "resolvePath a ?pp = (r, a1)" by (cases "resolvePath a ?pp")
  then have st1: "store a1 = store a" by (rule resolvePath_store)
  then have inv1: "storeInv (store a1)" using Cons.prems by simp
  show ?case
  proof (cases r)
    case (Inr ino)
    then show ?thesis using Cons.IH [OF inv1] res by (simp add: Let_def)
  next
    case (Inl e)
    show ?thesis
    proof (cases "e = ErrNotFound")
      case False
      then show ?thesis using res Inl inv1 by (simp add: Let_def)
    next
      case True
      obtain r2 a2 where mk: "AgentFS_Mkdir a1 now ?pp 493 = (r2, a2)"
        by (cases "AgentFS_Mkdir a1 now ?pp 493")
      have inv2: "storeInv (store a2)"
        using AgentFS_Mkdir_inv [OF inv1 mode_493_perm, of now ?pp] mk by simp
      show ?thesis
      proof (cases "\<exists>e'. r2 = Inl e' \<and> e' \<noteq> ErrExists")
        case True
        then show ?thesis using res Inl \<open>e = ErrNotFound\<close> mk inv2 by (auto simp: Let_def)
      next
        case False
        then have "ensureLoop a now parts (i # rest) = ensureLoop a2 now parts rest"
          using res Inl \<open>e = ErrNotFound\<close> mk by (cases r2) (auto simp: Let_def)
        then show ?thesis using Cons.IH [OF inv2] by simp
      qed
    qed
  qed
qed

lemma EnsureParentDirs_inv:
  "storeInv (store a) \<Longrightarrow> storeInv (store (snd (EnsureParentDirs a now path)))"
  by (simp add: EnsureParentDirs_def Let_def ensureLoop_inv)

lemma withIno_inv:
  "storeInv (store a) \<Longrightarrow> (\<And>ino s'. r = Inr (ino, s') \<Longrightarrow> storeInv s') \<Longrightarrow>
   storeInv (store (snd (withIno a r)))"
  by (auto simp: withIno_def split: sum.splits)

lemma withInoOwnErr_inv:
  "storeInv (store a) \<Longrightarrow> (\<And>ino s'. r = Inr (ino, s') \<Longrightarrow> storeInv s') \<Longrightarrow>
   storeInv (store (snd (withInoOwnErr a r)))"
  by (auto simp: withInoOwnErr_def split: sum.splits)

lemma CopyFromBase_inv:
  assumes inv: "storeInv (store a)"
  shows "storeInv (store (snd (CopyFromBase a now path h)))"
proof (cases "HostFS_Lstat h path")
  case (Inl e)
  then show ?thesis using inv by (simp add: CopyFromBase_def)
next
  case (Inr stats)
  obtain r1 a1 where en: "EnsureParentDirs a now path = (r1, a1)"
    by (cases "EnsureParentDirs a now path")
  have inv1: "storeInv (store a1)" using EnsureParentDirs_inv [OF inv, of now path] en by simp
  show ?thesis
  proof (cases r1)
    case (Inl e)
    then show ?thesis using Inr en inv1 by (simp add: CopyFromBase_def)
  next
    case r1r: (Inr u)
    obtain r2 a2 where rp: "resolveParentAndName a1 path = (r2, a2)"
      by (cases "resolveParentAndName a1 path")
    then have "store a2 = store a1" by (rule resolveParentAndName_store)
    then have inv2: "storeInv (store a2)" using inv1 by simp
    show ?thesis
    proof (cases r2)
      case (Inl e)
      then show ?thesis using Inr en r1r rp inv2 by (simp add: CopyFromBase_def)
    next
      case r2r: (Inr pn)
      obtain p name where pn: "pn = (p, name)" by (cases pn)
      have unf: "CopyFromBase a now path h =
          (if StatsIsRegular stats then
             (case HostFS_ReadWhole h path (stSize stats) of
                Inl e \<Rightarrow> (Inl e, a2)
              | Inr data \<Rightarrow> withInoOwnErr a2 (copyRegularTx (store a2) now p name stats data))
           else if StatsIsSymlink stats then
             (case HostFS_Readlink h path of
                Inl e \<Rightarrow> (Inl e, a2)
              | Inr target \<Rightarrow> withInoOwnErr a2 (copySymlinkTx (store a2) now p name stats target))
           else if StatsIsDir stats then withIno a2 (copyDirTx (store a2) now p name stats)
           else (Inr 0, a2))"
        using Inr en r1r rp r2r pn by (simp add: CopyFromBase_def)
      show ?thesis
      proof (cases "StatsIsRegular stats")
        case True
        show ?thesis
        proof (cases "HostFS_ReadWhole h path (stSize stats)")
          case (Inl e)
          then show ?thesis using unf True inv2 by simp
        next
          case rd: (Inr data)
          have "storeInv (store (snd (withInoOwnErr a2 (copyRegularTx (store a2) now p name stats data))))"
            by (rule withInoOwnErr_inv [OF inv2]) (rule copyRegularTx_inv [OF inv2 True])
          then show ?thesis using unf True rd by simp
        qed
      next
        case nreg: False
        show ?thesis
        proof (cases "StatsIsSymlink stats")
          case True
          show ?thesis
          proof (cases "HostFS_Readlink h path")
            case (Inl e)
            then show ?thesis using unf nreg True inv2 by simp
          next
            case rd: (Inr target)
            have "storeInv (store (snd (withInoOwnErr a2 (copySymlinkTx (store a2) now p name stats target))))"
              by (rule withInoOwnErr_inv [OF inv2]) (rule copySymlinkTx_inv [OF inv2 True])
            then show ?thesis using unf nreg True rd by simp
          qed
        next
          case nsym: False
          show ?thesis
          proof (cases "StatsIsDir stats")
            case True
            have "storeInv (store (snd (withIno a2 (copyDirTx (store a2) now p name stats))))"
              by (rule withIno_inv [OF inv2]) (rule copyDirTx_inv [OF inv2 True])
            then show ?thesis using unf nreg nsym True by simp
          next
            case False
            then show ?thesis using unf nreg nsym inv2 by simp
          qed
        qed
      qed
    qed
  qed
qed

lemma applyDeltaOp_inv:
  "storeInv (store a) \<Longrightarrow> permOnly x \<Longrightarrow> storeInv (store (applyDeltaOp a x))"
proof -
  assume inv: "storeInv (store a)" and po: "permOnly x"
  obtain now op where x: "x = (now, op)" by (cases x)
  show ?thesis
  proof (cases op)
    case (OpMkdir path mode)
    then have "mode AND S_IFMT = 0" using po x by (simp add: permOnly_def)
    then show ?thesis using inv x OpMkdir by (simp add: AgentFS_Mkdir_inv)
  next
    case (OpRmdir path)
    then show ?thesis using inv x by (simp add: AgentFS_Rmdir_inv)
  next
    case (OpCreate path mode)
    then show ?thesis using inv x by (simp add: AgentFS_Create_inv)
  next
    case (OpUnlink path)
    then show ?thesis using inv x by (simp add: AgentFS_Remove_inv)
  next
    case (OpLink oldpath newpath)
    then show ?thesis using inv x by (simp add: AgentFS_Link_inv)
  next
    case (OpCopyUp path h)
    then show ?thesis using inv x by (simp add: CopyFromBase_inv)
  qed
qed

lemma foldl_applyDeltaOp_inv:
  "storeInv (store a) \<Longrightarrow> \<forall>x \<in> set ops. permOnly x \<Longrightarrow>
   storeInv (store (foldl applyDeltaOp a ops))"
  by (induction ops arbitrary: a) (simp_all add: applyDeltaOp_inv)

lemma resolveWalk_fresh:
  "inoFresh (store a) \<Longrightarrow> cacheFresh a \<Longrightarrow> ino < nextIno (store a) \<Longrightarrow>
   resolveWalk a ino parts = (r, a') \<Longrightarrow>
   cacheFresh a' \<and> (\<forall>x. r = Inr x \<longrightarrow> x < nextIno (store a))"
proof (induction a ino parts arbitrary: r a' rule: resolveWalk.induct)
  case (1 a ino)
  then show ?case by auto
next
  case (2 a ino part parts)
  show ?case
  proof (cases "cache a (ino, part)")
    case (Some childIno)
    then have lt: "childIno < nextIno (store a)"
      using "2.prems"(2) unfolding cacheFresh_def by blast
    from "2.prems"(4) Some have "resolveWalk a childIno parts = (r, a')" by simp
    from "2.IH"(2) [OF Some "2.prems"(1,2) lt this] show ?thesis .
  next
    case None
    show ?thesis
    proof (cases "Lookup (store a) ino part")
      case (Inl e)
      with None "2.prems"(4) have "a' = a" "r = Inl (mapNotFound e)" by simp_all
      then show ?thesis using "2.prems"(2) by simp
    next
      case (Inr childIno)
      let ?a1 = "a\<lparr> cache := (cache a)((ino, part) \<mapsto> childIno) \<rparr>"
      have "Dentry ino part childIno \<in> set (fs_dentry (store a))" using Inr by (rule Lookup_member)
      then have "DentryIno (Dentry ino part childIno) < nextIno (store a)"
        using "2.prems"(1) unfolding inoFresh_def by blast
      then have lt: "childIno < nextIno (store ?a1)" by simp
      have f1: "cacheFresh ?a1"
        unfolding cacheFresh_def
      proof (intro allI impI)
        fix k c assume kc: "cache ?a1 k = Some c"
        show "c < nextIno (store ?a1)"
        proof (cases "k = (ino, part)")
          case True
          then show ?thesis using kc lt by simp
        next
          case False
          then have "cache a k = Some c" using kc by simp
          then have "c < nextIno (store a)" using "2.prems"(2) unfolding cacheFresh_def by blast
          then show ?thesis by simp
        qed
      qed
      have i1: "inoFresh (store ?a1)" using "2.prems"(1) by simp
      from "2.prems"(4) None Inr have "resolveWalk ?a1 childIno parts = (r, a')" by simp
      from "2.IH"(1) [OF None Inr i1 f1 lt this] show ?thesis by simp
    qed
  qed
qed

lemma resolvePath_fresh:
  "inoFresh (store a) \<Longrightarrow> cacheFresh a \<Longrightarrow> resolvePath a path = (r, a') \<Longrightarrow>
   cacheFresh a' \<and> (\<forall>x. r = Inr x \<longrightarrow> x < nextIno (store a))"
proof -
  assume inv: "inoFresh (store a)" and fr: "cacheFresh a" and res: "resolvePath a path = (r, a')"
  have one: "1 < nextIno (store a)" using inv unfolding inoFresh_def by (rule conjunct1)
  have "resolveWalk a 1 (splitPath path) = (r, a')" using res by (simp add: resolvePath_def)
  from resolveWalk_fresh [OF inv fr one this] show ?thesis .
qed

lemma resolveParentAndName_fresh:
  "inoFresh (store a) \<Longrightarrow> cacheFresh a \<Longrightarrow> resolveParentAndName a path = (r, a') \<Longrightarrow>
   cacheFresh a' \<and> (\<forall>p name. r = Inr (p, name) \<longrightarrow> p < nextIno (store a))"
proof -
  assume inv: "inoFresh (store a)" and fr: "cacheFresh a"
    and res: "resolveParentAndName a path = (r, a')"
  show ?thesis
  proof (cases "splitPath path = []")
    case True
    then show ?thesis using res fr by (auto simp: resolveParentAndName_def)
  next
    case False
    let ?pp = "joinPath (butlast (splitPath path))"
    obtain r1 a1 where rp: "resolvePath a ?pp = (r1, a1)" by (cases "resolvePath a ?pp")
    note f = resolvePath_fresh [OF inv fr rp]
    show ?thesis
    proof (cases r1)
      case (Inl e)
      then show ?thesis using res rp False f by (auto simp: resolveParentAndName_def Let_def)
    next
      case (Inr x)
      then show ?thesis using res rp False f by (auto simp: resolveParentAndName_def Let_def)
    qed
  qed
qed

lemma cacheFresh_store:
  "cacheFresh a \<Longrightarrow> nextIno (store a) \<le> nextIno s' \<Longrightarrow> cacheFresh (a\<lparr> store := s' \<rparr>)"
proof -
  assume fr: "cacheFresh a" and le: "nextIno (store a) \<le> nextIno s'"
  show ?thesis
    unfolding cacheFresh_def
  proof (intro allI impI)
    fix k c assume "cache (a\<lparr> store := s' \<rparr>) k = Some c"
    then have "cache a k = Some c" by simp
    then have "c < nextIno (store a)" using fr unfolding cacheFresh_def by blast
    then show "c < nextIno (store (a\<lparr> store := s' \<rparr>))" using le by simp
  qed
qed

lemma cacheFresh_invalidate: "cacheFresh a \<Longrightarrow> cacheFresh (invalidateCache a p name)"
proof -
  assume fr: "cacheFresh a"
  show ?thesis
    unfolding cacheFresh_def
  proof (intro allI impI)
    fix k c assume kc: "cache (invalidateCache a p name) k = Some c"
    then have "cache a k = Some c" by (cases "k = (p, name)") (simp_all add: invalidateCache_def)
    then have "c < nextIno (store a)" using fr unfolding cacheFresh_def by blast
    then show "c < nextIno (store (invalidateCache a p name))" by (simp add: invalidateCache_def)
  qed
qed

lemma updateRow_next: "nextIno (updateRow s ino f) = nextIno s"
  by (simp add: updateRow_def split: option.splits)

lemma CreateInodeTx_next: "CreateInodeTx s now m u g = (n, s1) \<Longrightarrow> nextIno s1 = nextIno s + 1"
  by (auto simp: CreateInodeTx_def Let_def)

lemma CreateDentryTx_next: "CreateDentryTx s p name ino = Inr s1 \<Longrightarrow> nextIno s1 = nextIno s"
  by (auto simp: CreateDentryTx_def split: if_splits)

lemma DeleteDentryTx_next: "DeleteDentryTx s p name = Inr s1 \<Longrightarrow> nextIno s1 = nextIno s"
  by (auto simp: DeleteDentryTx_def split: if_splits)

lemma DeleteInodeTx_next: "nextIno (DeleteInodeTx s ino) = nextIno s"
  by (simp add: DeleteInodeTx_def)

lemma DecrNlinkTx_next: "DecrNlinkTx s now ino = Inr (r, s1) \<Longrightarrow> nextIno s1 = nextIno s"
  by (auto simp: DecrNlinkTx_def Let_def updateRow_next split: option.splits if_splits)

lemma IncrNlinkTx_next: "nextIno (IncrNlinkTx s now ino) = nextIno s"
  by (simp add: IncrNlinkTx_def updateRow_next)

lemma UpdateSizeTx_next: "nextIno (UpdateSizeTx s now ino sz) = nextIno s"
  by (simp add: UpdateSizeTx_def updateRow_next)

lemma mkdirTx_next:
  assumes "mkdirTx s now p name mode = Inr s'"
  shows "nextIno s' = nextIno s + 1"
proof -
  obtain n s1 where c: "CreateInodeTx s now (S_IFDIR OR mode) 0 0 = (n, s1)"
    by (cases "CreateInodeTx s now (S_IFDIR OR mode) 0 0")
  then obtain s2 where d: "CreateDentryTx s1 p name n = Inr s2" and s': "s' = IncrNlinkTx s2 now p"
    using assms by (auto simp: mkdirTx_def split: sum.splits)
  show ?thesis
    using CreateInodeTx_next [OF c] CreateDentryTx_next [OF d] by (simp add: s' IncrNlinkTx_next)
qed

lemma createTx_next:
  assumes "createTx s now p name mode = Inr (ino, s')"
  shows "nextIno s' = nextIno s + 1"
proof -
  obtain n s1 where c: "CreateInodeTx s now (S_IFREG OR mode) 0 0 = (n, s1)"
    by (cases "CreateInodeTx s now (S_IFREG OR mode) 0 0")
  then have d: "CreateDentryTx s1 p name n = Inr s'"
    using assms by (auto simp: createTx_def split: sum.splits)
  show ?thesis using CreateInodeTx_next [OF c] CreateDentryTx_next [OF d] by simp
qed

lemma copyDirTx_next:
  assumes "copyDirTx s now p name stats = Inr (ino, s')"
  shows "nextIno s' = nextIno s + 1"
proof -
  obtain n s1 where c: "CreateInodeTx s now (stMode stats) (stUid stats) (stGid stats) = (n, s1)"
    by (cases "CreateInodeTx s now (stMode stats) (stUid stats) (stGid stats)")
  then obtain s2 where d: "CreateDentryTx s1 p name n = Inr s2" and s': "s' = IncrNlinkTx s2 now p"
    using assms by (auto simp: copyDirTx_def split: sum.splits)
  show ?thesis
    using CreateInodeTx_next [OF c] CreateDentryTx_next [OF d] by (simp add: s' IncrNlinkTx_next)
qed

lemma copyRegularTx_next:
  assumes "copyRegularTx s now p name stats data = Inr (ino, s')"
  shows "nextIno s' = nextIno s + 1"
proof -
  obtain n s1 where c: "CreateInodeTx s now (stMode stats) (stUid stats) (stGid stats) = (n, s1)"
    by (cases "CreateInodeTx s now (stMode stats) (stUid stats) (stGid stats)")
  obtain s2 where w: "(if length data > 0 then writeDataTx s1 n 0 data else Inr s1) = Inr s2"
    using assms c by (auto simp: copyRegularTx_def split: sum.splits)
  have s2: "nextIno s2 = nextIno s1"
    using w by (auto dest: writeDataTx_frame split: if_splits)
  have d: "CreateDentryTx (UpdateSizeTx s2 now n (int (length data))) p name n = Inr s'"
    using assms c w by (auto simp: copyRegularTx_def split: sum.splits)
  show ?thesis
    using CreateInodeTx_next [OF c] CreateDentryTx_next [OF d] s2 by (simp add: UpdateSizeTx_next)
qed

lemma copySymlinkTx_next:
  assumes "copySymlinkTx s now p name stats target = Inr (ino, s')"
  shows "nextIno s' = nextIno s + 1"
proof -
  obtain n s1 where c: "CreateInodeTx s now (stMode stats) (stUid stats) (stGid stats) = (n, s1)"
    by (cases "CreateInodeTx s now (stMode stats) (stUid stats) (stGid stats)")
  obtain s2 where w: "CreateSymlinkTx s1 n target = Inr s2"
    using assms c by (auto simp: copySymlinkTx_def split: sum.splits)
  have s2: "nextIno s2 = nextIno s1"
    using w by (auto simp: CreateSymlinkTx_def split: if_splits)
  have d: "CreateDentryTx (UpdateSizeTx s2 now n (int (length target))) p name n = Inr s'"
    using assms c w by (auto simp: copySymlinkTx_def split: sum.splits)
  show ?thesis
    using CreateInodeTx_next [OF c] CreateDentryTx_next [OF d] s2 by (simp add: UpdateSizeTx_next)
qed

lemma rmdirOp_next:
  assumes "rmdirOp s now p name = Inr s'"
  shows "nextIno s' = nextIno s"
proof -
  obtain ino where tx: "rmdirTx s now p name ino = Inr s'"
    using assms by (auto simp: rmdirOp_def split: sum.splits if_splits)
  then obtain s1 where d1: "DeleteDentryTx s p name = Inr s1"
    by (auto simp: rmdirTx_def split: sum.splits)
  then obtain rem where d2: "DecrNlinkTx (DeleteInodeTx s1 ino) now p = Inr (rem, s')"
    using tx by (auto simp: rmdirTx_def split: sum.splits)
  show ?thesis
    using DeleteDentryTx_next [OF d1] DecrNlinkTx_next [OF d2] by (simp add: DeleteInodeTx_next)
qed

lemma removeOp_next:
  assumes "removeOp s now p name = Inr s'"
  shows "nextIno s' = nextIno s"
proof -
  obtain ino inode where tx: "removeTx s now p name ino inode = Inr s'"
    using assms by (auto simp: removeOp_def split: sum.splits if_splits)
  then obtain s1 where d1: "DeleteDentryTx s p name = Inr s1"
    by (auto simp: removeTx_def split: sum.splits)
  then obtain rem s2 where d2: "DecrNlinkTx s1 now ino = Inr (rem, s2)"
    using tx by (auto simp: removeTx_def split: sum.splits)
  have "nextIno s' = nextIno s2"
    using tx d1 d2
    by (auto simp: removeTx_def DeleteInodeTx_next DeleteSymlinkTx_def DeleteDataTx_def
        split: if_splits)
  then show ?thesis using DeleteDentryTx_next [OF d1] DecrNlinkTx_next [OF d2] by simp
qed

lemma linkOp_next:
  assumes "linkOp s now src dp dn = Inr s'"
  shows "nextIno s' = nextIno s"
proof -
  obtain s1 where d: "CreateDentryTx s dp dn src = Inr s1" and s': "s' = IncrNlinkTx s1 now src"
    using assms by (auto simp: linkOp_def split: sum.splits)
  show ?thesis using CreateDentryTx_next [OF d] by (simp add: s' IncrNlinkTx_next)
qed

lemma storeInv_inoFresh: "storeInv s \<Longrightarrow> inoFresh s"
  by (simp add: storeInv_def)

lemma AgentFS_Mkdir_fresh:
  assumes inv: "storeInv (store a)" and fr: "cacheFresh a"
  shows "cacheFresh (snd (AgentFS_Mkdir a now path mode))"
proof (cases "resolveParentAndName a path")
  case (Pair r a')
  then have st: "store a' = store a" by (rule resolveParentAndName_store)
  have f: "cacheFresh a'"
    using resolveParentAndName_fresh [OF storeInv_inoFresh [OF inv] fr Pair] by simp
  show ?thesis
  proof (cases r)
    case (Inl e)
    then show ?thesis using Pair f by (simp add: AgentFS_Mkdir_def)
  next
    case (Inr pn)
    obtain p name where pn: "pn = (p, name)" by (cases pn)
    show ?thesis
    proof (cases "mkdirTx (store a') now p name mode")
      case (Inl e)
      then show ?thesis using Pair Inr pn f by (simp add: AgentFS_Mkdir_def withStore_def)
    next
      case tx: (Inr s')
      have "cacheFresh (a'\<lparr> store := s' \<rparr>)"
        using mkdirTx_next [OF tx] by (intro cacheFresh_store [OF f]) simp
      then show ?thesis using Pair Inr pn tx by (simp add: AgentFS_Mkdir_def withStore_def)
    qed
  qed
qed

lemma AgentFS_Rmdir_fresh:
  assumes inv: "storeInv (store a)" and fr: "cacheFresh a"
  shows "cacheFresh (snd (AgentFS_Rmdir a now path))"
proof (cases "resolveParentAndName a path")
  case (Pair r a')
  have f: "cacheFresh a'"
    using resolveParentAndName_fresh [OF storeInv_inoFresh [OF inv] fr Pair] by simp
  show ?thesis
  proof (cases r)
    case (Inl e)
    then show ?thesis using Pair f by (simp add: AgentFS_Rmdir_def)
  next
    case (Inr pn)
    obtain p name where pn: "pn = (p, name)" by (cases pn)
    show ?thesis
    proof (cases "rmdirOp (store a') now p name")
      case (Inl e)
      then show ?thesis using Pair Inr pn f by (simp add: AgentFS_Rmdir_def)
    next
      case tx: (Inr s')
      have "cacheFresh (a'\<lparr> store := s' \<rparr>)"
        using rmdirOp_next [OF tx] by (intro cacheFresh_store [OF f]) simp
      then have "cacheFresh (invalidateCache (a'\<lparr> store := s' \<rparr>) p name)"
        by (rule cacheFresh_invalidate)
      then show ?thesis using Pair Inr pn tx by (simp add: AgentFS_Rmdir_def)
    qed
  qed
qed

lemma AgentFS_Remove_fresh:
  assumes inv: "storeInv (store a)" and fr: "cacheFresh a"
  shows "cacheFresh (snd (AgentFS_Remove a now path))"
proof (cases "resolveParentAndName a path")
  case (Pair r a')
  have f: "cacheFresh a'"
    using resolveParentAndName_fresh [OF storeInv_inoFresh [OF inv] fr Pair] by simp
  show ?thesis
  proof (cases r)
    case (Inl e)
    then show ?thesis using Pair f by (simp add: AgentFS_Remove_def)
  next
    case (Inr pn)
    obtain p name where pn: "pn = (p, name)" by (cases pn)
    show ?thesis
    proof (cases "removeOp (store a') now p name")
      case (Inl e)
      then show ?thesis using Pair Inr pn f by (simp add: AgentFS_Remove_def)
    next
      case tx: (Inr s')
      have "cacheFresh (a'\<lparr> store := s' \<rparr>)"
        using removeOp_next [OF tx] by (intro cacheFresh_store [OF f]) simp
      then have "cacheFresh (invalidateCache (a'\<lparr> store := s' \<rparr>) p name)"
        by (rule cacheFresh_invalidate)
      then show ?thesis using Pair Inr pn tx by (simp add: AgentFS_Remove_def)
    qed
  qed
qed

lemma AgentFS_Create_fresh:
  assumes inv: "storeInv (store a)" and fr: "cacheFresh a"
  shows "cacheFresh (snd (AgentFS_Create a now path mode))"
proof (cases "resolveParentAndName a path")
  case (Pair r a')
  have f: "cacheFresh a'"
    using resolveParentAndName_fresh [OF storeInv_inoFresh [OF inv] fr Pair] by simp
  show ?thesis
  proof (cases r)
    case (Inl e)
    then show ?thesis using Pair f by (simp add: AgentFS_Create_def)
  next
    case (Inr pn)
    obtain p name where pn: "pn = (p, name)" by (cases pn)
    show ?thesis
    proof (cases "createTx (store a') now p name mode")
      case (Inl e)
      then show ?thesis using Pair Inr pn f by (simp add: AgentFS_Create_def)
    next
      case tx: (Inr res)
      obtain ino s' where res: "res = (ino, s')" by (cases res)
      have "cacheFresh (a'\<lparr> store := s' \<rparr>)"
        using createTx_next [of "store a'" now p name mode ino s'] tx res
        by (intro cacheFresh_store [OF f]) simp
      then show ?thesis using Pair \<open>r = Inr pn\<close> pn tx res
        by (simp add: AgentFS_Create_def split: sum.splits)
    qed
  qed
qed

lemma AgentFS_Link_fresh:
  assumes inv: "storeInv (store a)" and fr: "cacheFresh a"
  shows "cacheFresh (snd (AgentFS_Link a now oldpath newpath))"
proof (cases "resolvePath a oldpath")
  case (Pair r a1)
  then have st1: "store a1 = store a" by (rule resolvePath_store)
  have f1: "cacheFresh a1"
    using resolvePath_fresh [OF storeInv_inoFresh [OF inv] fr Pair] by simp
  have i1: "inoFresh (store a1)" using inv st1 by (simp add: storeInv_def)
  show ?thesis
  proof (cases r)
    case (Inl e)
    then show ?thesis using Pair f1 by (simp add: AgentFS_Link_def)
  next
    case (Inr src)
    show ?thesis
    proof (cases "fs_inode (store a1) src")
      case None
      then show ?thesis using Pair Inr f1 by (simp add: AgentFS_Link_def GetInode_def)
    next
      case (Some inode)
      show ?thesis
      proof (cases "IsDir inode")
        case True
        then show ?thesis using Pair Inr Some f1 by (simp add: AgentFS_Link_def GetInode_def)
      next
        case False
        obtain r2 a2 where r2: "resolveParentAndName a1 newpath = (r2, a2)"
          by (cases "resolveParentAndName a1 newpath")
        have f2: "cacheFresh a2" using resolveParentAndName_fresh [OF i1 f1 r2] by simp
        have unf: "AgentFS_Link a now oldpath newpath =
                   (case r2 of Inl e \<Rightarrow> (Inl e, a2)
                    | Inr (dp, dn) \<Rightarrow> withStore a2 (linkOp (store a2) now src dp dn))"
          using Pair Inr Some False r2 by (simp add: AgentFS_Link_def GetInode_def)
        show ?thesis
        proof (cases r2)
          case (Inl e)
          then show ?thesis using unf f2 by simp
        next
          case r2i: (Inr pn)
          obtain dp dn where pn: "pn = (dp, dn)" by (cases pn)
          show ?thesis
          proof (cases "linkOp (store a2) now src dp dn")
            case (Inl e)
            then show ?thesis using unf r2i pn f2 by (simp add: withStore_def)
          next
            case tx: (Inr s')
            have "cacheFresh (a2\<lparr> store := s' \<rparr>)"
              using linkOp_next [OF tx] by (intro cacheFresh_store [OF f2]) simp
            then show ?thesis using unf r2i pn tx by (simp add: withStore_def)
          qed
        qed
      qed
    qed
  qed
qed

lemma ensureLoop_fresh:
  "storeInv (store a) \<Longrightarrow> cacheFresh a \<Longrightarrow> cacheFresh (snd (ensureLoop a now parts idx))"
proof (induction idx arbitrary: a)
  case Nil
  then show ?case by simp
next
  case (Cons i rest)
  let ?pp = "joinPath (take i parts)"
  obtain r a1 where res: "resolvePath a ?pp = (r, a1)" by (cases "resolvePath a ?pp")
  then have st1: "store a1 = store a" by (rule resolvePath_store)
  then have inv1: "storeInv (store a1)" using Cons.prems by simp
  have f1: "cacheFresh a1"
    using resolvePath_fresh [OF storeInv_inoFresh [OF Cons.prems(1)] Cons.prems(2) res] by simp
  show ?case
  proof (cases r)
    case (Inr ino)
    then show ?thesis using Cons.IH [OF inv1 f1] res by (simp add: Let_def)
  next
    case (Inl e)
    show ?thesis
    proof (cases "e = ErrNotFound")
      case False
      then show ?thesis using res Inl f1 by (simp add: Let_def)
    next
      case True
      obtain r2 a2 where mk: "AgentFS_Mkdir a1 now ?pp 493 = (r2, a2)"
        by (cases "AgentFS_Mkdir a1 now ?pp 493")
      have inv2: "storeInv (store a2)"
        using AgentFS_Mkdir_inv [OF inv1 mode_493_perm, of now ?pp] mk by simp
      have f2: "cacheFresh a2" using AgentFS_Mkdir_fresh [OF inv1 f1, of now ?pp 493] mk by simp
      show ?thesis
      proof (cases "\<exists>e'. r2 = Inl e' \<and> e' \<noteq> ErrExists")
        case True
        then show ?thesis using res Inl \<open>e = ErrNotFound\<close> mk f2 by (auto simp: Let_def)
      next
        case False
        then have "ensureLoop a now parts (i # rest) = ensureLoop a2 now parts rest"
          using res Inl \<open>e = ErrNotFound\<close> mk by (cases r2) (auto simp: Let_def)
        then show ?thesis using Cons.IH [OF inv2 f2] by simp
      qed
    qed
  qed
qed

lemma EnsureParentDirs_fresh:
  "storeInv (store a) \<Longrightarrow> cacheFresh a \<Longrightarrow> cacheFresh (snd (EnsureParentDirs a now path))"
  by (simp add: EnsureParentDirs_def Let_def ensureLoop_fresh)

lemma withIno_fresh:
  "cacheFresh a \<Longrightarrow> (\<And>ino s'. r = Inr (ino, s') \<Longrightarrow> nextIno s' = nextIno (store a) + 1) \<Longrightarrow>
   cacheFresh (snd (withIno a r))"
proof (cases r)
  case (Inl e)
  assume "cacheFresh a"
  then show ?thesis using Inl by (simp add: withIno_def)
next
  case (Inr res)
  assume f: "cacheFresh a"
    and n: "\<And>ino s'. r = Inr (ino, s') \<Longrightarrow> nextIno s' = nextIno (store a) + 1"
  obtain ino s' where res: "res = (ino, s')" by (cases res)
  have "cacheFresh (a\<lparr> store := s' \<rparr>)"
    using n [of ino s'] Inr res by (intro cacheFresh_store [OF f]) simp
  then show ?thesis using Inr res by (simp add: withIno_def)
qed

lemma withInoOwnErr_fresh:
  "cacheFresh a \<Longrightarrow> (\<And>ino s'. r = Inr (ino, s') \<Longrightarrow> nextIno s' = nextIno (store a) + 1) \<Longrightarrow>
   cacheFresh (snd (withInoOwnErr a r))"
proof (cases r)
  case (Inl e)
  assume "cacheFresh a"
  then show ?thesis using Inl by (simp add: withInoOwnErr_def)
next
  case (Inr res)
  assume f: "cacheFresh a"
    and n: "\<And>ino s'. r = Inr (ino, s') \<Longrightarrow> nextIno s' = nextIno (store a) + 1"
  obtain ino s' where res: "res = (ino, s')" by (cases res)
  have "cacheFresh (a\<lparr> store := s' \<rparr>)"
    using n [of ino s'] Inr res by (intro cacheFresh_store [OF f]) simp
  then show ?thesis using Inr res by (simp add: withInoOwnErr_def)
qed

lemma CopyFromBase_fresh:
  assumes inv: "storeInv (store a)" and fr: "cacheFresh a"
  shows "cacheFresh (snd (CopyFromBase a now path h))"
proof (cases "HostFS_Lstat h path")
  case (Inl e)
  then show ?thesis using fr by (simp add: CopyFromBase_def)
next
  case (Inr stats)
  obtain r1 a1 where en: "EnsureParentDirs a now path = (r1, a1)"
    by (cases "EnsureParentDirs a now path")
  have inv1: "storeInv (store a1)" using EnsureParentDirs_inv [OF inv, of now path] en by simp
  have f1: "cacheFresh a1" using EnsureParentDirs_fresh [OF inv fr, of now path] en by simp
  show ?thesis
  proof (cases r1)
    case (Inl e)
    then show ?thesis using Inr en f1 by (simp add: CopyFromBase_def)
  next
    case r1r: (Inr u)
    obtain r2 a2 where rp: "resolveParentAndName a1 path = (r2, a2)"
      by (cases "resolveParentAndName a1 path")
    have f2: "cacheFresh a2"
      using resolveParentAndName_fresh [OF storeInv_inoFresh [OF inv1] f1 rp] by simp
    show ?thesis
    proof (cases r2)
      case (Inl e)
      then show ?thesis using Inr en r1r rp f2 by (simp add: CopyFromBase_def)
    next
      case r2r: (Inr pn)
      obtain p name where pn: "pn = (p, name)" by (cases pn)
      have unf: "CopyFromBase a now path h =
          (if StatsIsRegular stats then
             (case HostFS_ReadWhole h path (stSize stats) of
                Inl e \<Rightarrow> (Inl e, a2)
              | Inr data \<Rightarrow> withInoOwnErr a2 (copyRegularTx (store a2) now p name stats data))
           else if StatsIsSymlink stats then
             (case HostFS_Readlink h path of
                Inl e \<Rightarrow> (Inl e, a2)
              | Inr target \<Rightarrow> withInoOwnErr a2 (copySymlinkTx (store a2) now p name stats target))
           else if StatsIsDir stats then withIno a2 (copyDirTx (store a2) now p name stats)
           else (Inr 0, a2))"
        using Inr en r1r rp r2r pn by (simp add: CopyFromBase_def)
      have reg: "cacheFresh (snd (withInoOwnErr a2 (copyRegularTx (store a2) now p name stats data)))"
        for data by (rule withInoOwnErr_fresh [OF f2]) (rule copyRegularTx_next)
      have sym: "cacheFresh (snd (withInoOwnErr a2 (copySymlinkTx (store a2) now p name stats target)))"
        for target by (rule withInoOwnErr_fresh [OF f2]) (rule copySymlinkTx_next)
      have dir: "cacheFresh (snd (withIno a2 (copyDirTx (store a2) now p name stats)))"
        by (rule withIno_fresh [OF f2]) (rule copyDirTx_next)
      show ?thesis
        unfolding unf using f2 reg sym dir by (simp split: sum.splits)
    qed
  qed
qed

lemma mkdir_new_nlink:
  assumes inv: "storeInv (store a)" and fr: "cacheFresh a"
      and perm: "mode AND S_IFMT = 0"
      and ok: "AgentFS_Mkdir a now path mode = (Inr (), a')"
  shows "\<exists>i. fs_inode (store a') (nextIno (store a)) = Some i \<and> IsDir i \<and> Nlink i = 1"
proof -
  from ok obtain p name a1 where res: "resolveParentAndName a path = (Inr (p, name), a1)"
    by (auto simp: AgentFS_Mkdir_def split: prod.splits sum.splits)
  have st: "store a1 = store a" using res by (rule resolveParentAndName_store)
  have lt: "p < nextIno (store a)"
    using resolveParentAndName_fresh [OF storeInv_inoFresh [OF inv] fr res] by simp
  from ok res obtain s' where tx: "mkdirTx (store a) now p name mode = Inr s'"
    and a': "store a' = s'"
    by (auto simp: AgentFS_Mkdir_def withStore_def st split: sum.splits)
  let ?s = "store a"
  let ?n = "nextIno ?s"
  obtain s1 where c: "CreateInodeTx ?s now (S_IFDIR OR mode) 0 0 = (?n, s1)"
    by (simp add: CreateInodeTx_def Let_def)
  then obtain s2 where d: "CreateDentryTx s1 p name ?n = Inr s2"
    and s': "s' = IncrNlinkTx s2 now p"
    using tx by (auto simp: mkdirTx_def split: sum.splits)
  have i1: "fs_inode s1 ?n = Some \<lparr> Ino = ?n, Mode = S_IFDIR OR mode, Nlink = 1, UID = 0,
              GID = 0, Size = 0, Atime = now, Mtime = now, Ctime = now \<rparr>"
    using c by (auto simp: CreateInodeTx_def Let_def)
  have i2: "fs_inode s2 = fs_inode s1" using d by (auto simp: CreateDentryTx_def split: if_splits)
  have "fs_inode s' ?n = fs_inode s2 ?n"
    using lt by (simp add: s' IncrNlinkTx_def updateRow_def split: option.splits)
  then show ?thesis
    using i1 i2 dir_mode_perm [OF perm] by (simp add: a' IsDir_def)
qed

lemma applyDeltaOp_fresh:
  "storeInv (store a) \<Longrightarrow> cacheFresh a \<Longrightarrow> cacheFresh (applyDeltaOp a x)"
proof -
  assume inv: "storeInv (store a)" and fr: "cacheFresh a"
  obtain now op where x: "x = (now, op)" by (cases x)
  show ?thesis
  proof (cases op)
    case (OpMkdir path mode)
    then show ?thesis using inv fr x by (simp add: AgentFS_Mkdir_fresh)
  next
    case (OpRmdir path)
    then show ?thesis using inv fr x by (simp add: AgentFS_Rmdir_fresh)
  next
    case (OpCreate path mode)
    then show ?thesis using inv fr x by (simp add: AgentFS_Create_fresh)
  next
    case (OpUnlink path)
    then show ?thesis using inv fr x by (simp add: AgentFS_Remove_fresh)
  next
    case (OpLink oldpath newpath)
    then show ?thesis using inv fr x by (simp add: AgentFS_Link_fresh)
  next
    case (OpCopyUp path h)
    then show ?thesis using inv fr x by (simp add: CopyFromBase_fresh)
  qed
qed

lemma foldl_applyDeltaOp_fresh:
  "storeInv (store a) \<Longrightarrow> cacheFresh a \<Longrightarrow> \<forall>x \<in> set ops. permOnly x \<Longrightarrow>
   storeInv (store (foldl applyDeltaOp a ops)) \<and> cacheFresh (foldl applyDeltaOp a ops)"
  by (induction ops arbitrary: a) (simp_all add: applyDeltaOp_inv applyDeltaOp_fresh)

lemma deltaRun_inv:
  assumes "\<forall>x \<in> set ops. permOnly x"
  shows "storeInv (store (deltaRun cs t0 ops)) \<and> cacheFresh (deltaRun cs t0 ops)"
proof -
  have "storeInv (store (NewAgentFS (initSchema cs t0)))"
    by (simp add: NewAgentFS_def storeInv_initSchema)
  moreover have "cacheFresh (NewAgentFS (initSchema cs t0))"
    by (simp add: NewAgentFS_def cacheFresh_def)
  ultimately show ?thesis
    unfolding deltaRun_def using assms by (rule foldl_applyDeltaOp_fresh)
qed

text \<open>
  Claim C6, as amended. In every state reached from the initial store (root inode 1 with
  link count 2) by \<open>Mkdir\<close> with a permission-only mode, \<open>Rmdir\<close>, \<open>Create\<close>,
  \<open>Remove\<close>, \<open>Link\<close> and copy-up, whether each call succeeds or fails, the link count
  of every directory inode is its base count plus the number of its entries that refer
  to directories: the base count is 2 for the root and 1 for every other directory. In
  particular, a directory that \<open>Mkdir\<close> has just created has link count 1.
\<close>

theorem directory_link_count_invariant:
  assumes "\<forall>x \<in> set ops. permOnly x"
  shows "(\<forall>d i. fs_inode (store (deltaRun cs t0 ops)) d = Some i \<and> IsDir i \<longrightarrow>
            Nlink i = linkBase d + int (childDirs (store (deltaRun cs t0 ops)) d)) \<and>
         (\<forall>now path mode a'.
            mode AND S_IFMT = 0 \<and>
            AgentFS_Mkdir (deltaRun cs t0 ops) now path mode = (Inr (), a') \<longrightarrow>
            (\<exists>i. fs_inode (store a') (nextIno (store (deltaRun cs t0 ops))) = Some i \<and>
                 IsDir i \<and> Nlink i = 1))"
proof -
  note inv = deltaRun_inv [OF assms, of cs t0]
  have a: "\<forall>d i. fs_inode (store (deltaRun cs t0 ops)) d = Some i \<and> IsDir i \<longrightarrow>
            Nlink i = linkBase d + int (childDirs (store (deltaRun cs t0 ops)) d)"
    using inv by (simp add: storeInv_def nlinkInv_def)
  have b: "\<exists>i. fs_inode (store a') (nextIno (store (deltaRun cs t0 ops))) = Some i \<and>
                 IsDir i \<and> Nlink i = 1"
    if "mode AND S_IFMT = 0" "AgentFS_Mkdir (deltaRun cs t0 ops) now path mode = (Inr (), a')"
    for now path mode a'
    using mkdir_new_nlink [OF _ _ that] inv by simp
  show ?thesis using a b by blast
qed

theorem directory_link_count_invariant_witness:
  "map_option Nlink (fs_inode (store (deltaRun 4096 0 linkOps)) 1) = Some 4 \<and>
   childDirs (store (deltaRun 4096 0 linkOps)) 1 = 2 \<and>
   map_option Nlink (fs_inode (store (deltaRun 4096 0 linkOps)) 5) = Some 2 \<and>
   childDirs (store (deltaRun 4096 0 linkOps)) 5 = 1 \<and>
   fst (AgentFS_Mkdir (deltaRun 4096 0 linkOps) 8 ''/c/x'' 448) = Inr () \<and>
   map_option Nlink
     (fs_inode (store (snd (AgentFS_Mkdir (deltaRun 4096 0 linkOps) 8 ''/c/x'' 448))) 8) = Some 1"
proof -
  let ?a = "deltaRun 4096 0 linkOps"
  have p: "\<forall>x \<in> set linkOps. permOnly x"
    by (simp add: linkOps_def permOnly_def S_IFMT_def)
  note th = directory_link_count_invariant [OF p, of 4096 0]
  have c1: "childDirs (store ?a) 1 = 2" by code_simp
  have c5: "childDirs (store ?a) 5 = 1" by code_simp
  have d1: "map_option IsDir (fs_inode (store ?a) 1) = Some True" by code_simp
  have d5: "map_option IsDir (fs_inode (store ?a) 5) = Some True" by code_simp
  have nx: "nextIno (store ?a) = 8" by code_simp
  have ok: "fst (AgentFS_Mkdir ?a 8 ''/c/x'' 448) = Inr ()" by code_simp
  then have run: "AgentFS_Mkdir ?a 8 ''/c/x'' 448 = (Inr (), snd (AgentFS_Mkdir ?a 8 ''/c/x'' 448))"
    by (cases "AgentFS_Mkdir ?a 8 ''/c/x'' 448") simp
  have perm: "(448 :: mode_t) AND S_IFMT = 0" by (simp add: S_IFMT_def)
  obtain i1 where i1: "fs_inode (store ?a) 1 = Some i1" "IsDir i1" using d1 by auto
  obtain i5 where i5: "fs_inode (store ?a) 5 = Some i5" "IsDir i5" using d5 by auto
  have n1: "Nlink i1 = 4" using th i1 c1 by (simp add: linkBase_def)
  have n5: "Nlink i5 = 2" using th i5 c5 by (simp add: linkBase_def)
  have n8: "\<exists>i. fs_inode (store (snd (AgentFS_Mkdir ?a 8 ''/c/x'' 448))) 8 = Some i \<and>
              IsDir i \<and> Nlink i = 1"
    using th perm run nx by metis
  show ?thesis using n1 n5 n8 i1 i5 c1 c5 ok by auto
qed

text \<open>
  The claim as stated fails on the first directory made: \<open>/a\<close> gets inode 2 with link
  count 1 and has no entries, and 1 is not 2 + 0.
\<close>

theorem fresh_directory_link_count_counterexample:
  "fst (AgentFS_Mkdir (NewAgentFS (initSchema 4096 0)) 1 ''/a'' 493) = Inr () \<and>
   map_option IsDir
     (fs_inode (store (snd (AgentFS_Mkdir (NewAgentFS (initSchema 4096 0)) 1 ''/a'' 493))) 2)
     = Some True \<and>
   map_option Nlink
     (fs_inode (store (snd (AgentFS_Mkdir (NewAgentFS (initSchema 4096 0)) 1 ''/a'' 493))) 2)
     = Some 1 \<and>
   childDirs (store (snd (AgentFS_Mkdir (NewAgentFS (initSchema 4096 0)) 1 ''/a'' 493))) 2 = 0 \<and>
   (1 :: int) \<noteq> 2 + int 0"
  by code_simp

text \<open>
  The mode of \<open>Mkdir\<close> must be free of file-type bits: with \<open>S_IFREG\<close> in it the new
  inode gets the type bits \<open>0o140000\<close> and is no directory, while the root's link count
  still grows to 3.
\<close>

lemma mkdir_with_type_bits_is_no_directory:
  "fst (AgentFS_Mkdir (NewAgentFS (initSchema 4096 0)) 1 ''/a'' 32768) = Inr () \<and>
   map_option IsDir
     (fs_inode (store (snd (AgentFS_Mkdir (NewAgentFS (initSchema 4096 0)) 1 ''/a'' 32768))) 2)
     = Some False \<and>
   map_option Nlink
     (fs_inode (store (snd (AgentFS_Mkdir (NewAgentFS (initSchema 4096 0)) 1 ''/a'' 32768))) 1)
     = Some 3 \<and>
   childDirs (store (snd (AgentFS_Mkdir (NewAgentFS (initSchema 4096 0)) 1 ''/a'' 32768))) 1 = 0"
  by code_simp

text \<open>
  \<open>Rename\<close> is left out of the operations above: it moves a directory to another
  parent and leaves both parents' link counts as they were.
\<close>

lemma rename_moves_directory_without_link_counts:
  "fst (AgentFS_Rename (deltaRun 4096 0 renameOps) ''/a/c'' ''/b/c'') = Inr () \<and>
   map_option Nlink
     (fs_inode (store (snd (AgentFS_Rename (deltaRun 4096 0 renameOps) ''/a/c'' ''/b/c''))) 2)
     = Some 2 \<and>
   childDirs (store (snd (AgentFS_Rename (deltaRun 4096 0 renameOps) ''/a/c'' ''/b/c''))) 2 = 0 \<and>
   map_option Nlink
     (fs_inode (store (snd (AgentFS_Rename (deltaRun 4096 0 renameOps) ''/a/c'' ''/b/c''))) 3)
     = Some 1 \<and>
   childDirs (store (snd (AgentFS_Rename (deltaRun 4096 0 renameOps) ''/a/c'' ''/b/c''))) 3 = 1"
  by code_simp


end
